theory Spec2Isabelle
  imports Main
begin

section \<open>Juju GUI server utilities (server/guiserver/utils.py)\<close>

text \<open>
  The module is Python 2 code. Strings are byte strings, modelled as \<open>string\<close>
  (lists of 8-bit characters). An exception raised by the code is the \<open>Inl\<close> branch of
  a result of type \<open>error + 'a\<close>.

  The functions of the module call the standard library (\<open>str.replace\<close>, \<open>re.search\<close>,
  \<open>str.format\<close>, \<open>urlparse.urlsplit\<close>). These are modelled here after CPython 2.7. Where
  the library accepts a larger language than the model covers (regular expression and
  format-string syntax), the model returns \<open>Inl Unsupported\<close>: this value is not a
  behaviour of the program, it marks an input on which the model says nothing.
\<close>

datatype error =
    KeyError string
  | IndexError
  | ValueError
  | ReError
  | Unsupported

subsection \<open>Characters\<close>

definition backslash :: char where
  "backslash = CHR 0x5C"

definition newline :: char where
  "newline = CHR 0x0A"

definition is_digit :: "char \<Rightarrow> bool" where
  "is_digit c = (c \<in> set ''0123456789'')"

definition is_alpha :: "char \<Rightarrow> bool" where
  "is_alpha c = (c \<in> set ''abcdefghijklmnopqrstuvwxyzABCDEFGHIJKLMNOPQRSTUVWXYZ'')"

subsection \<open>\<open>str.startswith\<close> and \<open>str.replace\<close>\<close>

fun startswith :: "string \<Rightarrow> string \<Rightarrow> bool" where
  "startswith s [] = True"
| "startswith [] (c # t) = False"
| "startswith (x # s) (c # t) = (x = c \<and> startswith s t)"

text \<open>
  \<open>s.replace(old, new)\<close> for a non-empty \<open>old\<close>: the occurrences of \<open>old\<close> are found from
  the left and do not overlap.
\<close>

function replace_from :: "string \<Rightarrow> string \<Rightarrow> string \<Rightarrow> string" where
  "replace_from old new [] = []"
| "replace_from old new (c # s) =
     (if old \<noteq> [] \<and> startswith (c # s) old
      then new @ replace_from old new (drop (length old) (c # s))
      else c # replace_from old new s)"
  by pat_completeness auto
termination
  by (relation "measure (\<lambda>(old, new, s). length s)") (auto simp: neq_Nil_conv)

text \<open>With an empty \<open>old\<close>, Python puts \<open>new\<close> before every character and at the end.\<close>

definition str_replace :: "string \<Rightarrow> string \<Rightarrow> string \<Rightarrow> string" where
  "str_replace old new s =
     (if old = [] then new @ concat (map (\<lambda>c. c # new) s) else replace_from old new s)"

subsection \<open>Regular expressions: the fragment of \<open>re\<close> that the templates use\<close>

text \<open>
  A compiled pattern is a sequence of items. An item matches one character (a literal,
  \<open>.\<close> or \<open>\d\<close>), or is the anchor \<open>$\<close>, or is a named group \<open>(?P<name>a*)\<close> or
  \<open>(?P<name>a+)\<close> around a greedy repetition of a one-character item \<open>a\<close> (the number
  is the least count: 0 for \<open>*\<close>, 1 for \<open>+\<close>).
\<close>

datatype atom = AChar char | AAny | ADigit

datatype item = One atom | Eol | Group string atom nat

fun atom_ok :: "atom \<Rightarrow> char \<Rightarrow> bool" where
  "atom_ok (AChar a) c = (a = c)"
| "atom_ok AAny c = (c \<noteq> newline)"
| "atom_ok ADigit c = is_digit c"

text \<open>\<open>SPECIAL_CHARS\<close> of \<open>sre_parse\<close>: every other character of a pattern is a literal.\<close>

definition special :: "char \<Rightarrow> bool" where
  "special c = (c \<in> set ''.[{()*+?^$|'' \<or> c = backslash)"

definition is_name_char :: "char \<Rightarrow> bool" where
  "is_name_char c = (is_alpha c \<or> is_digit c \<or> c = CHR ''_'')"

definition is_name :: "string \<Rightarrow> bool" where
  "is_name n = (n \<noteq> [] \<and> \<not> is_digit (hd n) \<and> list_all is_name_char n)"

text \<open>The one-character item at the head of a pattern, with the rest of the pattern.\<close>

fun parse_atom :: "string \<Rightarrow> (atom \<times> string) option" where
  "parse_atom [] = None"
| "parse_atom (c # s) =
     (if c = CHR ''.'' then Some (AAny, s)
      else if c = backslash then
        (case s of d # s' \<Rightarrow> if d = CHR ''d'' then Some (ADigit, s') else None | [] \<Rightarrow> None)
      else if special c then None
      else Some (AChar c, s))"

text \<open>The greedy quantifier and the closing parenthesis that end a group.\<close>

fun parse_repeat :: "string \<Rightarrow> (nat \<times> string) option" where
  "parse_repeat (q # p # s) =
     (if p \<noteq> CHR '')'' then None
      else if q = CHR ''*'' then Some (0, s)
      else if q = CHR ''+'' then Some (1, s)
      else None)"
| "parse_repeat _ = None"

text \<open>
  A named group at the head of a pattern: \<open>(?P<\<close>, the name, \<open>>\<close>, a one-character item,
  \<open>*\<close> or \<open>+\<close>, and \<open>)\<close>. The result is the group and the rest of the pattern.
\<close>

definition parse_group :: "string \<Rightarrow> (item \<times> string) option" where
  "parse_group s =
     (if \<not> startswith s ''(?P<'' then None
      else let s1 = drop 4 s;
               name = takeWhile (\<lambda>c. c \<noteq> CHR ''>'') s1;
               s2 = dropWhile (\<lambda>c. c \<noteq> CHR ''>'') s1
           in if s2 = [] \<or> \<not> is_name name then None
              else (case parse_atom (tl s2) of
                      None \<Rightarrow> None
                    | Some (a, s3) \<Rightarrow>
                        (case parse_repeat s3 of
                           None \<Rightarrow> None
                         | Some (m, s4) \<Rightarrow> Some (Group name a m, s4))))"

lemma parse_atom_shorter: "parse_atom s = Some (a, r) \<Longrightarrow> length r < length s"
  by (cases s) (auto split: if_splits list.splits)

lemma parse_repeat_shorter: "parse_repeat s = Some (m, r) \<Longrightarrow> length r < length s"
  by (induction s rule: parse_repeat.induct) (auto split: if_splits)

lemma parse_group_shorter:
  assumes "parse_group s = Some (g, r)"
  shows "length r < length s"
proof -
  define s2 where "s2 = dropWhile (\<lambda>c. c \<noteq> CHR ''>'') (drop 4 s)"
  have dw: "length s2 \<le> length s"
    unfolding s2_def by (rule order_trans [OF length_dropWhile_le]) simp
  from assms obtain a s3 m where
    pa: "parse_atom (tl s2) = Some (a, s3)" and pr: "parse_repeat s3 = Some (m, r)"
    unfolding parse_group_def Let_def s2_def [symmetric]
    by (auto split: if_splits option.splits)
  have "length r < length s3"
    using pr by (rule parse_repeat_shorter)
  moreover have "length s3 < length (tl s2)"
    using pa by (rule parse_atom_shorter)
  moreover have "length (tl s2) \<le> length s2"
    by simp
  ultimately show ?thesis
    using dw by linarith
qed

text \<open>
  \<open>sre_parse.parse\<close> on the fragment, from left to right. \<open>seen\<close> holds the names of the
  groups opened so far: opening a second group with a name already in use raises
  \<open>re.error\<close> (redefinition of group name).
\<close>

function sre_parse :: "string list \<Rightarrow> string \<Rightarrow> error + item list" where
  "sre_parse seen [] = Inr []"
| "sre_parse seen (c # s) =
     (if c = CHR ''$'' then
        (case sre_parse seen s of Inl e \<Rightarrow> Inl e | Inr its \<Rightarrow> Inr (Eol # its))
      else if c = CHR ''('' then
        (case parse_group (c # s) of
           None \<Rightarrow> Inl Unsupported
         | Some (g, r) \<Rightarrow>
             (case g of
                Group n a m \<Rightarrow>
                  if n \<in> set seen then Inl ReError
                  else (case sre_parse (n # seen) r of
                          Inl e \<Rightarrow> Inl e
                        | Inr its \<Rightarrow> Inr (g # its))
              | _ \<Rightarrow> Inl Unsupported))
      else
        (case parse_atom (c # s) of
           None \<Rightarrow> Inl Unsupported
         | Some (a, r) \<Rightarrow>
             (case sre_parse seen r of Inl e \<Rightarrow> Inl e | Inr its \<Rightarrow> Inr (One a # its))))"
  by pat_completeness auto
termination
  by (relation "measure (\<lambda>(seen, s). length s)")
     (auto simp del: parse_atom.simps dest: parse_group_shorter parse_atom_shorter)

definition sre_compile :: "string \<Rightarrow> error + item list" where
  "sre_compile pattern = sre_parse [] pattern"

subsection \<open>Matching\<close>

text \<open>The first success among the candidates, tried in the order of the list.\<close>

fun first_success :: "(nat \<Rightarrow> 'a option) \<Rightarrow> nat list \<Rightarrow> 'a option" where
  "first_success f [] = None"
| "first_success f (k # ks) =
     (case f k of Some r \<Rightarrow> Some r | None \<Rightarrow> first_success f ks)"

text \<open>
  The counts a greedy repetition tries on the subject \<open>s\<close>: from the longest run of
  characters that the item accepts down to the least count.
\<close>

definition counts :: "atom \<Rightarrow> nat \<Rightarrow> string \<Rightarrow> nat list" where
  "counts a m s = rev [m ..< Suc (length (takeWhile (atom_ok a) s))]"

text \<open>
  The backtracking matcher at a fixed start. \<open>s\<close> is the rest of the subject, \<open>caps\<close> the
  groups captured so far (name and matched text). \<open>$\<close> matches at the end of the subject
  and before a newline that ends it.
\<close>

fun match_items :: "item list \<Rightarrow> string \<Rightarrow> (string \<times> string) list \<Rightarrow> (string \<times> string) list option" where
  "match_items [] s caps = Some caps"
| "match_items (One a # its) s caps =
     (case s of
        [] \<Rightarrow> None
      | c # s' \<Rightarrow> if atom_ok a c then match_items its s' caps else None)"
| "match_items (Eol # its) s caps =
     (if s = [] \<or> s = [newline] then match_items its s caps else None)"
| "match_items (Group n a m # its) s caps =
     first_success (\<lambda>k. match_items its (drop k s) (caps @ [(n, take k s)])) (counts a m s)"

text \<open>\<open>re.search\<close>: the match at the leftmost start that has one.\<close>

fun search_from :: "item list \<Rightarrow> string \<Rightarrow> (string \<times> string) list option" where
  "search_from its [] = match_items its [] []"
| "search_from its (c # s) =
     (case match_items its (c # s) [] of
        Some g \<Rightarrow> Some g
      | None \<Rightarrow> search_from its s)"

text \<open>
  \<open>re.search(pattern, string)\<close> followed by \<open>groupdict()\<close> on a match: \<open>Inr None\<close> is
  Python's \<open>None\<close> (no match).
\<close>

definition re_search :: "string \<Rightarrow> string \<Rightarrow> error + (string \<times> string) list option" where
  "re_search pattern s =
     (case sre_compile pattern of
        Inl e \<Rightarrow> Inl e
      | Inr its \<Rightarrow> Inr (search_from its s))"

subsection \<open>\<open>str.format\<close> with keyword arguments only\<close>

text \<open>
  The replacement fields the model covers are \<open>{name}\<close>, without conversion, format
  specification, attribute or index. There are no positional arguments, so a field with
  an empty or numeric name raises \<open>IndexError\<close>.
\<close>

definition field_unsupported :: "string \<Rightarrow> bool" where
  "field_unsupported n = (\<exists>c \<in> set n. c \<in> set ''{!:.['') "

function str_format :: "string \<Rightarrow> (string \<times> string) list \<Rightarrow> error + string" where
  "str_format [] kw = Inr []"
| "str_format (c # s) kw =
     (if c = CHR ''{'' then
        (if startswith s ''{'' then
           (case str_format (tl s) kw of Inl e \<Rightarrow> Inl e | Inr out \<Rightarrow> Inr (CHR ''{'' # out))
         else
           let name = takeWhile (\<lambda>x. x \<noteq> CHR ''}'') s;
               rest = dropWhile (\<lambda>x. x \<noteq> CHR ''}'') s
           in if rest = [] then Inl ValueError
              else if field_unsupported name then Inl Unsupported
              else if list_all is_digit name then
                (if length name < 10 then Inl IndexError else Inl Unsupported)
              else (case map_of kw name of
                      None \<Rightarrow> Inl (KeyError name)
                    | Some v \<Rightarrow>
                        (case str_format (tl rest) kw of
                           Inl e \<Rightarrow> Inl e
                         | Inr out \<Rightarrow> Inr (v @ out))))
      else if c = CHR ''}'' then
        (if startswith s ''}'' then
           (case str_format (tl s) kw of Inl e \<Rightarrow> Inl e | Inr out \<Rightarrow> Inr (CHR ''}'' # out))
         else Inl ValueError)
      else
        (case str_format s kw of Inl e \<Rightarrow> Inl e | Inr out \<Rightarrow> Inr (c # out)))"
  by pat_completeness auto
termination
proof (relation "measure (\<lambda>(s, kw). length s)", goal_cases)
  case 1
  show ?case by simp
next
  case (2 c s kw)
  then show ?case by (cases s) auto
next
  case (3 c s kw name rest v)
  have "length (dropWhile (\<lambda>x. x \<noteq> CHR ''}'') s) \<le> length s"
    by (rule length_dropWhile_le)
  with 3 show ?case by (cases rest) auto
next
  case (4 c s kw)
  then show ?case by (cases s) auto
next
  case (5 c s kw)
  then show ?case by simp
qed

subsection \<open>\<open>get_juju_api_url\<close>\<close>

definition make_pattern :: "string \<Rightarrow> string" where
  "make_pattern source_template =
     str_replace ''$uuid'' ''(?P<uuid>.*)''
       (str_replace ''$port'' (''(?P<port>'' @ [backslash] @ ''d+)'')
          (str_replace ''$server'' ''(?P<server>.*)'' source_template))"

definition get_juju_api_url :: "string \<Rightarrow> string \<Rightarrow> string \<Rightarrow> string \<Rightarrow> error + string" where
  "get_juju_api_url path source_template target_template dflt =
     (case re_search (make_pattern source_template) path of
        Inl e \<Rightarrow> Inl e
      | Inr None \<Rightarrow> Inr dflt
      | Inr (Some groupdict) \<Rightarrow> str_format target_template groupdict)"

subsection \<open>\<open>get_juju_api_url\<close> with the pattern cache of \<open>re\<close>\<close>

text \<open>
  \<open>re.search\<close> compiles its pattern through \<open>re._compile\<close>, which keeps the compiled
  patterns in the module-level dictionary \<open>re._cache\<close> and empties it when it holds
  \<open>_MAXCACHE\<close> (100) entries. This is the only state the function touches. Here the
  cache is passed in and returned; its key is the pattern (the type of the pattern and
  the flags, the other parts of the key, are the same in every call).
\<close>

type_synonym re_cache = "(string \<times> item list) list"

definition re_compile_cached :: "re_cache \<Rightarrow> string \<Rightarrow> (error + item list) \<times> re_cache" where
  "re_compile_cached cache pattern =
     (case map_of cache pattern of
        Some p \<Rightarrow> (Inr p, cache)
      | None \<Rightarrow>
          (case sre_compile pattern of
             Inl e \<Rightarrow> (Inl e, cache)
           | Inr p \<Rightarrow> (Inr p, (pattern, p) # (if 100 \<le> length cache then [] else cache))))"

definition get_juju_api_url_cached ::
  "re_cache \<Rightarrow> string \<Rightarrow> string \<Rightarrow> string \<Rightarrow> string \<Rightarrow> (error + string) \<times> re_cache" where
  "get_juju_api_url_cached cache path source_template target_template dflt =
     (case re_compile_cached cache (make_pattern source_template) of
        (Inl e, cache') \<Rightarrow> (Inl e, cache')
      | (Inr its, cache') \<Rightarrow>
          (case search_from its path of
             None \<Rightarrow> (Inr dflt, cache')
           | Some groupdict \<Rightarrow> (str_format target_template groupdict, cache')))"

text \<open>Every entry of the cache is the compiled form of its key.\<close>

definition cache_ok :: "re_cache \<Rightarrow> bool" where
  "cache_ok cache = list_all (\<lambda>(pattern, p). sre_compile pattern = Inr p) cache"

subsection \<open>\<open>json_decode_dict\<close>\<close>

text \<open>
  The decoded JSON data. \<open>JObject\<close> is a Python \<open>dict\<close>, the only decoded value that is
  an instance of \<open>collections.Mapping\<close>.
\<close>

datatype json =
    JNull
  | JBool bool
  | JNumber int
  | JString string
  | JArray "json list"
  | JObject "(string \<times> json) list"

fun is_mapping :: "json \<Rightarrow> bool" where
  "is_mapping (JObject kvs) = True"
| "is_mapping _ = False"

text \<open>
  The two warnings the function logs; each carries the message it reports (the code
  formats it with \<open>{!r}\<close>).
\<close>

datatype warning = NotValidJSON string | NotADict string

text \<open>
  \<open>escape.json_decode\<close> belongs to Tornado and is a parameter here: it returns the
  decoded data or raises. The function catches \<open>ValueError\<close> only; any other exception
  of the decoder goes through. The result is the returned value (\<open>None\<close> is Python's
  \<open>None\<close>) and the warnings logged.
\<close>

definition json_decode_dict ::
  "(string \<Rightarrow> error + json) \<Rightarrow> string \<Rightarrow> error + (json option \<times> warning list)" where
  "json_decode_dict json_decode message =
     (case json_decode message of
        Inl ValueError \<Rightarrow> Inr (None, [NotValidJSON message])
      | Inl e \<Rightarrow> Inl e
      | Inr data \<Rightarrow>
          if \<not> is_mapping data then Inr (None, [NotADict message])
          else Inr (Some data, []))"

subsection \<open>\<open>urlparse.urlsplit\<close> and \<open>ws_to_http\<close>\<close>

record split_result =
  sr_scheme :: string
  sr_netloc :: string
  sr_path :: string
  sr_query :: string
  sr_fragment :: string

definition scheme_chars :: string where
  "scheme_chars = ''abcdefghijklmnopqrstuvwxyzABCDEFGHIJKLMNOPQRSTUVWXYZ0123456789+-.''"

text \<open>\<open>str.lower\<close> on a byte string (the ASCII letters).\<close>

definition lower_char :: "char \<Rightarrow> char" where
  "lower_char c =
     (case map_of (zip ''ABCDEFGHIJKLMNOPQRSTUVWXYZ'' ''abcdefghijklmnopqrstuvwxyz'') c of
        Some l \<Rightarrow> l
      | None \<Rightarrow> c)"

definition lower :: "string \<Rightarrow> string" where
  "lower s = map lower_char s"

text \<open>\<open>s.find(c)\<close> and \<open>s.find(c, start)\<close> for a character \<open>c\<close>; \<open>None\<close> is Python's \<open>-1\<close>.\<close>

fun find_char :: "char \<Rightarrow> string \<Rightarrow> nat option" where
  "find_char c [] = None"
| "find_char c (x # s) = (if x = c then Some 0 else map_option Suc (find_char c s))"

definition find_from :: "char \<Rightarrow> nat \<Rightarrow> string \<Rightarrow> nat option" where
  "find_from c start s =
     (if length s < start then None
      else map_option (\<lambda>i. i + start) (find_char c (drop start s)))"

text \<open>\<open>s.split(c, 1)\<close> when \<open>c\<close> occurs in \<open>s\<close>: the text before and after its first occurrence.\<close>

definition split_once :: "char \<Rightarrow> string \<Rightarrow> string \<times> string" where
  "split_once c s = (takeWhile (\<lambda>x. x \<noteq> c) s, tl (dropWhile (\<lambda>x. x \<noteq> c) s))"

definition splitnetloc :: "string \<Rightarrow> nat \<Rightarrow> string \<times> string" where
  "splitnetloc url start =
     (let delim = fold (\<lambda>c delim. case find_from c start url of
                                      Some wdelim \<Rightarrow> min delim wdelim
                                    | None \<Rightarrow> delim)
                       ''/?#'' (length url)
      in (take (delim - start) (drop start url), drop delim url))"

text \<open>
  The part of \<open>urlsplit\<close> after the scheme has been taken off: network location, fragment
  and query, in this order. The code has it twice, once for \<open>http\<close> and once for every
  other scheme.
\<close>

definition split_rest :: "string \<Rightarrow> string \<Rightarrow> error + split_result" where
  "split_rest scheme url =
     (let (netloc, url1) = (if take 2 url = ''//'' then splitnetloc url 2 else ([], url))
      in if (CHR ''['' \<in> set netloc \<and> CHR '']'' \<notin> set netloc) \<or>
            (CHR '']'' \<in> set netloc \<and> CHR ''['' \<notin> set netloc)
         then Inl ValueError
         else
           let (url2, fragment) =
                 (if CHR ''#'' \<in> set url1 then split_once (CHR ''#'') url1 else (url1, []));
               (url3, query) =
                 (if CHR ''?'' \<in> set url2 then split_once (CHR ''?'') url2 else (url2, []))
           in Inr \<lparr>sr_scheme = scheme, sr_netloc = netloc, sr_path = url3,
                    sr_query = query, sr_fragment = fragment\<rparr>)"

text \<open>
  \<open>urlsplit(url)\<close> of CPython 2.7 on a byte string, with the default arguments. Its
  cache of results (\<open>_parse_cache\<close>) does not change what it returns and is left out.
\<close>

definition urlsplit :: "string \<Rightarrow> error + split_result" where
  "urlsplit url =
     (case find_char (CHR '':'') url of
        None \<Rightarrow> split_rest [] url
      | Some i \<Rightarrow>
          if \<not> 0 < i then split_rest [] url
          else if take i url = ''http'' then split_rest (lower (take i url)) (drop (i + 1) url)
          else if list_all (\<lambda>c. c \<in> set scheme_chars) (take i url) then
            (let rest = drop (i + 1) url
             in if rest = [] \<or> list_ex (\<lambda>c. c \<notin> set ''0123456789'') rest
                then split_rest (lower (take i url)) rest
                else split_rest [] url)
          else split_rest [] url)"

definition ws_to_http :: "string \<Rightarrow> error + string" where
  "ws_to_http url =
     (case urlsplit url of
        Inl e \<Rightarrow> Inl e
      | Inr parts \<Rightarrow>
          (case map_of [(''ws'', ''http''), (''wss'', ''https'')] (sr_scheme parts) of
             None \<Rightarrow> Inl (KeyError (sr_scheme parts))
           | Some scheme \<Rightarrow> Inr (scheme @ ''://'' @ sr_netloc parts @ sr_path parts)))"

section \<open>Notions used to state the properties\<close>

subsection \<open>Target templates as text and replacement fields\<close>

text \<open>
  A target template seen as a sequence of pieces: text without braces, and replacement
  fields \<open>{name}\<close>. \<open>fill\<close> is the template with every field whose name has a captured
  value replaced by that value; a field without a value stays as it is written.
\<close>

datatype piece = Text string | Field string

fun piece_text :: "piece \<Rightarrow> string" where
  "piece_text (Text s) = s"
| "piece_text (Field n) = ''{'' @ n @ ''}''"

definition template_text :: "piece list \<Rightarrow> string" where
  "template_text ps = concat (map piece_text ps)"

fun piece_ok :: "piece \<Rightarrow> bool" where
  "piece_ok (Text s) = (CHR ''{'' \<notin> set s \<and> CHR ''}'' \<notin> set s)"
| "piece_ok (Field n) = (\<not> list_ex (\<lambda>c. c \<in> set ''{}!:.['') n \<and> \<not> list_all is_digit n)"

fun fill_piece :: "(string \<times> string) list \<Rightarrow> piece \<Rightarrow> string" where
  "fill_piece kw (Text s) = s"
| "fill_piece kw (Field n) = (case map_of kw n of Some v \<Rightarrow> v | None \<Rightarrow> ''{'' @ n @ ''}'')"

definition fill :: "(string \<times> string) list \<Rightarrow> piece list \<Rightarrow> string" where
  "fill kw ps = concat (map (fill_piece kw) ps)"

fun captured :: "(string \<times> string) list \<Rightarrow> piece \<Rightarrow> bool" where
  "captured kw (Text s) = True"
| "captured kw (Field n) = (map_of kw n \<noteq> None)"

definition occurs :: "string \<Rightarrow> string \<Rightarrow> bool" where
  "occurs sub s = list_ex (\<lambda>i. startswith (drop i s) sub) [0 ..< Suc (length s)]"


subsection \<open>The splits of a subject by a pattern\<close>

text \<open>
  \<open>fits its s vals\<close>: the items \<open>its\<close> match a prefix of the subject \<open>s\<close> when the groups
  take the values \<open>vals\<close>, in the order of the groups. \<open>tried_first vals ws\<close>: the
  backtracking matcher reaches the split \<open>vals\<close> no later than the split \<open>ws\<close> of the same
  subject (at the first group where they differ, \<open>vals\<close> is longer).
\<close>

fun group_names :: "item list \<Rightarrow> string list" where
  "group_names [] = []"
| "group_names (Group n a m # its) = n # group_names its"
| "group_names (_ # its) = group_names its"

fun fits :: "item list \<Rightarrow> string \<Rightarrow> string list \<Rightarrow> bool" where
  "fits [] s vals = (vals = [])"
| "fits (One a # its) s vals =
     (case s of [] \<Rightarrow> False | c # s' \<Rightarrow> atom_ok a c \<and> fits its s' vals)"
| "fits (Eol # its) s vals = ((s = [] \<or> s = [newline]) \<and> fits its s vals)"
| "fits (Group n a m # its) s vals =
     (case vals of
        [] \<Rightarrow> False
      | v # vs \<Rightarrow> startswith s v \<and> list_all (atom_ok a) v \<and> m \<le> length v \<and>
                  fits its (drop (length v) s) vs)"

fun tried_first :: "string list \<Rightarrow> string list \<Rightarrow> bool" where
  "tried_first [] ws = True"
| "tried_first (v # vs) [] = True"
| "tried_first (v # vs) (w # ws) =
     (length w < length v \<or> (length w = length v \<and> tried_first vs ws))"


subsection \<open>Source templates as tokens\<close>

text \<open>
  A source template seen as a sequence of tokens: an ordinary character, a \<open>$\<close> that
  does not start a placeholder, and the three placeholders. \<open>tokens_ok\<close>: the characters
  are not special in a pattern, a \<open>$\<close> token is not followed by the name of a
  placeholder, and no placeholder occurs twice. \<open>item_of\<close> is the item of the compiled
  pattern that stands for a token.
\<close>

datatype token = Chr char | Dollar | Server | Port | Uuid

fun token_source :: "token \<Rightarrow> string" where
  "token_source (Chr c) = [c]"
| "token_source Dollar = ''$''"
| "token_source Server = ''$server''"
| "token_source Port = ''$port''"
| "token_source Uuid = ''$uuid''"

definition template_source :: "token list \<Rightarrow> string" where
  "template_source ts = concat (map token_source ts)"

fun item_of :: "token \<Rightarrow> item" where
  "item_of (Chr c) = One (AChar c)"
| "item_of Dollar = Eol"
| "item_of Server = Group ''server'' AAny 0"
| "item_of Port = Group ''port'' ADigit 1"
| "item_of Uuid = Group ''uuid'' AAny 0"

fun tokens_ok :: "token list \<Rightarrow> bool" where
  "tokens_ok [] = True"
| "tokens_ok (Chr c # ts) = (\<not> special c \<and> tokens_ok ts)"
| "tokens_ok (Dollar # ts) =
     (\<not> startswith (template_source ts) ''server'' \<and>
      \<not> startswith (template_source ts) ''port'' \<and>
      \<not> startswith (template_source ts) ''uuid'' \<and> tokens_ok ts)"
| "tokens_ok (t # ts) = (t \<notin> set ts \<and> tokens_ok ts)"


text \<open>The names of the groups that the placeholders of a template open, in their order.\<close>

fun token_names :: "token list \<Rightarrow> string list" where
  "token_names [] = []"
| "token_names (Server # ts) = ''server'' # token_names ts"
| "token_names (Port # ts) = ''port'' # token_names ts"
| "token_names (Uuid # ts) = ''uuid'' # token_names ts"
| "token_names (_ # ts) = token_names ts"


text \<open>
  The text of a template after the first \<open>k\<close> of the three replacements of
  \<open>make_pattern\<close> (\<open>$server\<close>, then \<open>$port\<close>, then \<open>$uuid\<close>).
\<close>

fun stage :: "nat \<Rightarrow> token \<Rightarrow> string" where
  "stage k (Chr c) = [c]"
| "stage k Dollar = ''$''"
| "stage k Server = (if 1 \<le> k then ''(?P<server>.*)'' else ''$server'')"
| "stage k Port = (if 2 \<le> k then ''(?P<port>'' @ [backslash] @ ''d+)'' else ''$port'')"
| "stage k Uuid = (if 3 \<le> k then ''(?P<uuid>.*)'' else ''$uuid'')"


text \<open>The length of the value of the first group of a split.\<close>

fun first_length :: "string list \<Rightarrow> nat" where
  "first_length [] = 0"
| "first_length (v # vs) = length v"


text \<open>The number of \<open>/\<close> in a string.\<close>

definition slashes :: "string \<Rightarrow> nat" where
  "slashes x = length (filter (\<lambda>c. c = CHR ''/'') x)"


section \<open>Properties\<close>

subsection \<open>The pattern cache does not change the result\<close>

lemma cache_ok_lookup: "cache_ok c \<Longrightarrow> map_of c pat = Some p \<Longrightarrow> sre_compile pat = Inr p"
  unfolding cache_ok_def by (auto simp: list_all_iff dest!: map_of_SomeD)

lemma re_compile_cached_result:
  "cache_ok c \<Longrightarrow> fst (re_compile_cached c pat) = sre_compile pat"
proof (cases "map_of c pat")
  case None
  then show ?thesis
    unfolding re_compile_cached_def by (simp split: sum.splits)
next
  case (Some p)
  assume "cache_ok c"
  then have "sre_compile pat = Inr p"
    using Some by (rule cache_ok_lookup)
  with Some show ?thesis
    unfolding re_compile_cached_def by simp
qed

lemma re_compile_cached_ok:
  "cache_ok c \<Longrightarrow> cache_ok (snd (re_compile_cached c pat))"
  unfolding re_compile_cached_def
  by (auto split: option.splits sum.splits simp: cache_ok_def)

lemma cached_eq_pure:
  assumes "cache_ok c"
  shows "fst (get_juju_api_url_cached c p src tgt d) = get_juju_api_url p src tgt d"
    and "cache_ok (snd (get_juju_api_url_cached c p src tgt d))"
proof -
  obtain r c' where rc: "re_compile_cached c (make_pattern src) = (r, c')"
    by (cases "re_compile_cached c (make_pattern src)")
  from re_compile_cached_result [OF assms, of "make_pattern src"] rc
  have r: "r = sre_compile (make_pattern src)" by simp
  from re_compile_cached_ok [OF assms, of "make_pattern src"] rc
  have c': "cache_ok c'" by simp
  show "fst (get_juju_api_url_cached c p src tgt d) = get_juju_api_url p src tgt d"
    unfolding get_juju_api_url_cached_def get_juju_api_url_def re_search_def rc
    using r by (auto split: sum.splits option.splits)
  show "cache_ok (snd (get_juju_api_url_cached c p src tgt d))"
    unfolding get_juju_api_url_cached_def rc
    using c' by (auto split: sum.splits option.splits)
qed


text \<open>
  C8: the result of \<open>get_juju_api_url\<close> is a function of its four arguments. Two calls
  with the same arguments return the same value whatever the pattern cache holds at each
  call, and a call leaves the cache well-formed for the next one. The arguments are
  strings, which the call cannot change.
\<close>

theorem get_juju_api_url_deterministic:
  assumes "cache_ok c1" and "cache_ok c2"
  shows "fst (get_juju_api_url_cached c1 p source_template target_template dflt) =
         fst (get_juju_api_url_cached c2 p source_template target_template dflt) \<and>
         fst (get_juju_api_url_cached c1 p source_template target_template dflt) =
         get_juju_api_url p source_template target_template dflt \<and>
         cache_ok (snd (get_juju_api_url_cached c1 p source_template target_template dflt))"
  using assms by (simp add: cached_eq_pure)

theorem get_juju_api_url_deterministic_witness:
  "cache_ok [] \<and>
   cache_ok (snd (get_juju_api_url_cached [] ''/x'' ''/api/$server/$port'' ''{port}'' ''D'')) \<and>
   fst (get_juju_api_url_cached [] ''/api/h/17070'' ''/api/$server/$port'' ''{server}:{port}'' ''D'') =
   fst (get_juju_api_url_cached
          (snd (get_juju_api_url_cached [] ''/x'' ''/api/$server/$port'' ''{port}'' ''D''))
          ''/api/h/17070'' ''/api/$server/$port'' ''{server}:{port}'' ''D'') \<and>
   fst (get_juju_api_url_cached [] ''/api/h/17070'' ''/api/$server/$port'' ''{server}:{port}'' ''D'') =
   Inr ''h:17070''"
proof -
  have e: "cache_ok []"
    by (simp add: cache_ok_def)
  have n: "cache_ok (snd (get_juju_api_url_cached [] ''/x'' ''/api/$server/$port'' ''{port}'' ''D''))"
    using e by (rule cached_eq_pure)
  have v: "get_juju_api_url ''/api/h/17070'' ''/api/$server/$port'' ''{server}:{port}'' ''D'' = Inr ''h:17070''"
    by code_simp
  note t = get_juju_api_url_deterministic [OF e n, of "''/api/h/17070''"
      "''/api/$server/$port''" "''{server}:{port}''" "''D''"]
  have x: "fst (get_juju_api_url_cached [] ''/api/h/17070'' ''/api/$server/$port''
             ''{server}:{port}'' ''D'') = Inr ''h:17070''"
    by (rule trans [OF t [THEN conjunct2, THEN conjunct1] v])
  show ?thesis
    by (intro conjI e n conjunct1 [OF t] x)
qed

subsection \<open>\<open>json_decode_dict\<close>: one value for two failures\<close>

text \<open>
  C9: \<open>json_decode_dict\<close> returns \<open>None\<close> when the message is not valid JSON (the decoder
  raises \<open>ValueError\<close>) and also when the decoded value is not a mapping; otherwise it
  returns the decoded mapping itself. The returned value is the same in the two
  failures (only the logged warning differs).
\<close>

theorem json_decode_dict_outcomes:
  "(json_decode message = Inl ValueError \<longrightarrow>
      map_sum id fst (json_decode_dict json_decode message) = Inr None) \<and>
   (\<forall>data. json_decode message = Inr data \<and> \<not> is_mapping data \<longrightarrow>
      map_sum id fst (json_decode_dict json_decode message) = Inr None) \<and>
   (\<forall>data. json_decode message = Inr data \<and> is_mapping data \<longrightarrow>
      map_sum id fst (json_decode_dict json_decode message) = Inr (Some data))"
  unfolding json_decode_dict_def by auto

theorem json_decode_dict_outcomes_witness:
  "map_sum id fst (json_decode_dict (\<lambda>m. if m = ''{}'' then Inr (JObject [])
                                           else if m = ''[]'' then Inr (JArray [])
                                           else Inl ValueError) ''{'') = Inr None \<and>
   map_sum id fst (json_decode_dict (\<lambda>m. if m = ''{}'' then Inr (JObject [])
                                           else if m = ''[]'' then Inr (JArray [])
                                           else Inl ValueError) ''[]'') = Inr None \<and>
   map_sum id fst (json_decode_dict (\<lambda>m. if m = ''{}'' then Inr (JObject [])
                                           else if m = ''[]'' then Inr (JArray [])
                                           else Inl ValueError) ''{}'') = Inr (Some (JObject []))"
  using
    json_decode_dict_outcomes [of "\<lambda>m. if m = ''{}'' then Inr (JObject [])
                                    else if m = ''[]'' then Inr (JArray [])
                                    else Inl ValueError" "''{''"]
    json_decode_dict_outcomes [of "\<lambda>m. if m = ''{}'' then Inr (JObject [])
                                    else if m = ''[]'' then Inr (JArray [])
                                    else Inl ValueError" "''[]''"]
    json_decode_dict_outcomes [of "\<lambda>m. if m = ''{}'' then Inr (JObject [])
                                    else if m = ''[]'' then Inr (JArray [])
                                    else Inl ValueError" "''{}''"]
  by simp

subsection \<open>\<open>ws_to_http\<close>\<close>

lemma find_char_None: "find_char c s = None \<longleftrightarrow> c \<notin> set s"
  by (induction s) auto

lemma find_char_Some: "find_char c s = Some i \<Longrightarrow> i < length s \<and> s ! i = c \<and> c \<notin> set (take i s)"
  by (induction s arbitrary: i) (auto split: if_splits)

lemma split_once_fst: "c \<notin> set (fst (split_once c s))"
  unfolding split_once_def by (auto dest: set_takeWhileD)

lemma find_from_before:
  assumes "start \<le> length url" "start \<le> j"
    and "j < (case find_from c start url of Some w \<Rightarrow> w | None \<Rightarrow> length url)"
  shows "url ! j \<noteq> c"
proof (cases "find_char c (drop start url)")
  case None
  then have "c \<notin> set (drop start url)"
    by (simp add: find_char_None)
  moreover from assms None have "j < length url"
    by (simp add: find_from_def)
  then have "url ! j \<in> set (drop start url)"
    using assms(2) by (auto simp: in_set_conv_nth intro!: exI [of _ "j - start"])
  ultimately show ?thesis by auto
next
  case (Some i)
  then have i: "i < length (drop start url)" "c \<notin> set (take i (drop start url))"
    by (auto dest: find_char_Some)
  from assms Some have "j < i + start"
    by (simp add: find_from_def)
  then have "url ! j \<in> set (take i (drop start url))"
    using assms(2) i(1) by (auto simp: in_set_conv_nth intro!: exI [of _ "j - start"])
  with i(2) show ?thesis by auto
qed

lemma splitnetloc_netloc:
  assumes "x \<in> set ''/?#''" "start \<le> length url"
  shows "x \<notin> set (fst (splitnetloc url start))"
proof
  define delim where "delim = fold (\<lambda>c delim. case find_from c start url of
                                      Some wdelim \<Rightarrow> min delim wdelim
                                    | None \<Rightarrow> delim)
                       ''/?#'' (length url)"
  assume "x \<in> set (fst (splitnetloc url start))"
  then have "x \<in> set (take (delim - start) (drop start url))"
    by (simp add: splitnetloc_def delim_def Let_def)
  then obtain k where k: "k < delim - start" "k < length url - start" "x = url ! (start + k)"
    by (auto simp: in_set_conv_nth)
  have "delim \<le> (case find_from x start url of Some w \<Rightarrow> w | None \<Rightarrow> length url)"
    using assms(1) unfolding delim_def by (auto split: option.splits)
  with k have "start + k < (case find_from x start url of Some w \<Rightarrow> w | None \<Rightarrow> length url)"
    by linarith
  from find_from_before [OF assms(2) _ this] k(3) show False
    by simp
qed

lemma take2_length: "take 2 url = ''//'' \<Longrightarrow> 2 \<le> length url"
  by (cases url; cases "tl url") auto

lemma split_rest_netloc:
  assumes "split_rest sch url = Inr parts" "x \<in> set ''/?#''"
  shows "x \<notin> set (sr_netloc parts)"
proof (cases "take 2 url = ''//''")
  case True
  then have "x \<notin> set (fst (splitnetloc url 2))"
    using assms(2) by (intro splitnetloc_netloc take2_length)
  moreover have "sr_netloc parts = fst (splitnetloc url 2)"
    using assms(1) True unfolding split_rest_def Let_def
    by (auto split: if_splits prod.splits)
  ultimately show ?thesis by simp
next
  case False
  then have "sr_netloc parts = []"
    using assms(1) unfolding split_rest_def Let_def
    by (auto split: if_splits prod.splits)
  then show ?thesis by simp
qed

lemma split_rest_path:
  assumes "split_rest sch url = Inr parts"
  shows "CHR ''?'' \<notin> set (sr_path parts) \<and> CHR ''#'' \<notin> set (sr_path parts)"
proof -
  have tw: "\<And>c (s :: string). c \<notin> set (takeWhile (\<lambda>x. x \<noteq> c) s)"
    by (auto dest: set_takeWhileD)
  have tw2: "\<And>c d (s :: string). c \<notin> set (takeWhile (\<lambda>x. x \<noteq> d) (takeWhile (\<lambda>x. x \<noteq> c) s))"
    by (auto dest!: set_takeWhileD)
  show ?thesis
    using assms unfolding split_rest_def Let_def split_once_def
    by (auto split: if_splits prod.splits simp: tw tw2 dest: set_takeWhileD)
qed

lemma split_rest_scheme:
  assumes "split_rest sch url = Inr parts"
  shows "sr_scheme parts = sch"
  using assms unfolding split_rest_def Let_def
  by (auto split: if_splits prod.splits)

lemma urlsplit_clean:
  assumes "urlsplit url = Inr parts"
  shows "CHR ''?'' \<notin> set (sr_netloc parts @ sr_path parts) \<and>
         CHR ''#'' \<notin> set (sr_netloc parts @ sr_path parts)"
proof -
  from assms obtain sch u where "split_rest sch u = Inr parts"
    unfolding urlsplit_def Let_def by (auto split: option.splits if_splits)
  from split_rest_netloc [OF this] split_rest_path [OF this] show ?thesis
    by simp
qed

lemma find_char_takeWhile:
  "find_char c s = (if c \<in> set s then Some (length (takeWhile (\<lambda>x. x \<noteq> c) s)) else None)"
  by (induction s) auto

lemma takeWhile_conj_length:
  "length (takeWhile (\<lambda>x. P x \<and> Q x) s) =
   min (length (takeWhile P s)) (length (takeWhile Q s))"
  by (induction s) auto

lemma takeWhile_absent: "c \<notin> set s \<Longrightarrow> takeWhile (\<lambda>x. x \<noteq> c) s = s"
  by (induction s) auto

lemma delim_step:
  assumes "start \<le> length url" and "d \<le> length url"
  shows "(case find_from c start url of Some w \<Rightarrow> min d w | None \<Rightarrow> d) =
         min d (start + length (takeWhile (\<lambda>x. x \<noteq> c) (drop start url)))"
proof (cases "c \<in> set (drop start url)")
  case True
  with assms(1) show ?thesis
    by (simp add: find_from_def find_char_takeWhile add.commute)
next
  case False
  then have tw: "takeWhile (\<lambda>x. x \<noteq> c) (drop start url) = drop start url"
    by (rule takeWhile_absent)
  have "start + length (takeWhile (\<lambda>x. x \<noteq> c) (drop start url)) = length url"
    unfolding tw using assms(1) by simp
  moreover have "find_from c start url = None"
    using False assms(1) by (simp add: find_from_def find_char_takeWhile)
  ultimately show ?thesis
    using assms(2) by (simp only: option.case min_absorb1)
qed

lemma splitnetloc_takeWhile:
  assumes "start \<le> length url"
  shows "splitnetloc url start =
         (takeWhile (\<lambda>x. x \<noteq> CHR ''/'' \<and> x \<noteq> CHR ''?'' \<and> x \<noteq> CHR ''#'') (drop start url),
          dropWhile (\<lambda>x. x \<noteq> CHR ''/'' \<and> x \<noteq> CHR ''?'' \<and> x \<noteq> CHR ''#'') (drop start url))"
proof -
  let ?s = "drop start url"
  let ?k = "\<lambda>c. length (takeWhile (\<lambda>x. x \<noteq> c) ?s)"
  let ?P = "\<lambda>x. x \<noteq> CHR ''/'' \<and> x \<noteq> CHR ''?'' \<and> x \<noteq> CHR ''#''"
  define d1 where "d1 = min (length url) (start + ?k (CHR ''/''))"
  define d2 where "d2 = min d1 (start + ?k (CHR ''?''))"
  define d3 where "d3 = min d2 (start + ?k (CHR ''#''))"
  have b: "d1 \<le> length url" "d2 \<le> length url"
    by (simp_all add: d1_def d2_def)
  define f where "f = (\<lambda>c delim. case find_from c start url of
                            Some wdelim \<Rightarrow> min delim wdelim
                          | None \<Rightarrow> delim)"
  have st: "f c d = min d (start + ?k c)" if "d \<le> length url" for c d
    unfolding f_def using assms that by (rule delim_step)
  have "fold f ''/?#'' (length url) = f (CHR ''#'') (f (CHR ''?'') (f (CHR ''/'') (length url)))"
    by simp
  also have "f (CHR ''/'') (length url) = d1"
    unfolding d1_def by (rule st) simp
  also have "f (CHR ''?'') d1 = d2"
    unfolding d2_def using b(1) by (rule st)
  also have "f (CHR ''#'') d2 = d3"
    unfolding d3_def using b(2) by (rule st)
  finally have "fold f ''/?#'' (length url) = d3" .
  then have sn: "splitnetloc url start = (take (d3 - start) ?s, drop d3 url)"
    unfolding f_def by (simp add: splitnetloc_def)
  have k: "\<And>c. ?k c \<le> length url - start"
    using length_takeWhile_le [of _ ?s] by simp
  have n: "length (takeWhile ?P ?s) = min (?k (CHR ''/'')) (min (?k (CHR ''?'')) (?k (CHR ''#'')))"
    by (simp add: takeWhile_conj_length)
  have d3: "d3 = start + length (takeWhile ?P ?s)"
    unfolding n d3_def d2_def d1_def using assms k [of "CHR ''/''"] by simp
  have t: "take (d3 - start) ?s = takeWhile ?P ?s"
    unfolding d3 by (simp add: takeWhile_eq_take [symmetric])
  have "dropWhile ?P ?s = drop (length (takeWhile ?P ?s)) ?s"
    by (rule dropWhile_eq_drop)
  also have "\<dots> = drop d3 url"
    unfolding d3 by (simp add: add.commute)
  finally have "drop d3 url = dropWhile ?P ?s" ..
  with sn t show ?thesis by simp
qed

lemma takeWhile_host:
  assumes "\<forall>x \<in> set host. P x" and "r = [] \<or> \<not> P (hd r)"
  shows "takeWhile P (host @ r) = host" and "dropWhile P (host @ r) = r"
  using assms by (cases r; simp add: takeWhile_append2 dropWhile_append2)+

lemma sr_path_takeWhile:
  "(let (url2, fragment) =
          (if CHR ''#'' \<in> set url1 then split_once (CHR ''#'') url1 else (url1, []));
        (url3, query) =
          (if CHR ''?'' \<in> set url2 then split_once (CHR ''?'') url2 else (url2, []))
    in url3) = takeWhile (\<lambda>c. c \<noteq> CHR ''?'' \<and> c \<noteq> CHR ''#'') url1"
proof -
  have tt: "takeWhile (\<lambda>x. x \<noteq> CHR ''?'') (takeWhile (\<lambda>x. x \<noteq> CHR ''#'') url1) =
        takeWhile (\<lambda>c. c \<noteq> CHR ''?'' \<and> c \<noteq> CHR ''#'') url1"
    by (induction url1) auto
  have a: "takeWhile (\<lambda>x. x \<noteq> CHR ''#'') url1 = url1" if "CHR ''#'' \<notin> set url1"
    using that by (rule takeWhile_absent)
  have b: "takeWhile (\<lambda>x. x \<noteq> CHR ''?'') u = u" if "CHR ''?'' \<notin> set u" for u :: string
    using that by (rule takeWhile_absent)
  show ?thesis
    unfolding tt [symmetric]
    by (auto simp: split_once_def Let_def a b)
qed

lemma find_char_first:
  "c \<notin> set a \<Longrightarrow> find_char c (a @ c # b) = Some (length a)"
  by (induction a) auto

lemma scheme_chars_colon: "set sch \<subseteq> set scheme_chars \<Longrightarrow> CHR '':'' \<notin> set sch"
  by (auto simp: scheme_chars_def)

lemma split_rest_parts:
  assumes "split_rest sch url = Inr parts"
    and "(if take 2 url = ''//'' then splitnetloc url 2 else ([], url)) = (netloc, url1)"
  shows "sr_scheme parts = sch" and "sr_netloc parts = netloc"
    and "sr_path parts = takeWhile (\<lambda>c. c \<noteq> CHR ''?'' \<and> c \<noteq> CHR ''#'') url1"
proof -
  show "sr_scheme parts = sch"
    using assms(1) by (rule split_rest_scheme)
  show "sr_netloc parts = netloc"
    using assms by (auto simp: split_rest_def Let_def split: if_splits prod.splits)
  have tt: "takeWhile (\<lambda>x. x \<noteq> CHR ''?'') (takeWhile (\<lambda>x. x \<noteq> CHR ''#'') url1) =
        takeWhile (\<lambda>c. c \<noteq> CHR ''?'' \<and> c \<noteq> CHR ''#'') url1"
    by (induction url1) auto
  define url2 where "url2 = takeWhile (\<lambda>x. x \<noteq> CHR ''#'') url1"
  have u2: "(if CHR ''#'' \<in> set url1 then fst (split_once (CHR ''#'') url1) else url1) = url2"
    by (simp add: url2_def split_once_def takeWhile_absent)
  have u3: "(if CHR ''?'' \<in> set url2 then fst (split_once (CHR ''?'') url2) else url2) =
            takeWhile (\<lambda>x. x \<noteq> CHR ''?'') url2"
    by (simp add: split_once_def takeWhile_absent)
  have "sr_path parts =
          (if CHR ''?'' \<in> set (if CHR ''#'' \<in> set url1 then fst (split_once (CHR ''#'') url1) else url1)
           then fst (split_once (CHR ''?'')
                  (if CHR ''#'' \<in> set url1 then fst (split_once (CHR ''#'') url1) else url1))
           else (if CHR ''#'' \<in> set url1 then fst (split_once (CHR ''#'') url1) else url1))"
    using assms by (auto simp: split_rest_def Let_def split: if_splits prod.splits)
  also have "\<dots> = takeWhile (\<lambda>x. x \<noteq> CHR ''?'') url2"
    unfolding u2 by (rule u3)
  also have "\<dots> = takeWhile (\<lambda>c. c \<noteq> CHR ''?'' \<and> c \<noteq> CHR ''#'') url1"
    unfolding url2_def by (rule tt)
  finally show "sr_path parts = takeWhile (\<lambda>c. c \<noteq> CHR ''?'' \<and> c \<noteq> CHR ''#'') url1" .
qed

lemma split_rest_error:
  assumes "(if take 2 url = ''//'' then splitnetloc url 2 else ([], url)) = (netloc, url1)"
  shows "(\<exists>parts. split_rest sch url = Inr parts) \<longleftrightarrow>
         \<not> ((CHR ''['' \<in> set netloc) \<noteq> (CHR '']'' \<in> set netloc))"
    and "split_rest sch url = Inl e \<Longrightarrow> e = ValueError"
  using assms by (auto simp: split_rest_def Let_def split: if_splits prod.splits)

lemma splitnetloc_authority:
  assumes "\<forall>c \<in> set host. c \<notin> set ''/?#''" and "r = [] \<or> hd r \<in> set ''/?#''"
  shows "(if take 2 (''//'' @ host @ r) = ''//'' then splitnetloc (''//'' @ host @ r) 2
          else ([], ''//'' @ host @ r)) = (host, r)"
proof -
  let ?P = "\<lambda>x. x \<noteq> CHR ''/'' \<and> x \<noteq> CHR ''?'' \<and> x \<noteq> CHR ''#''"
  have h: "\<forall>x \<in> set host. ?P x"
    using assms(1) by auto
  have r: "r = [] \<or> \<not> ?P (hd r)"
    using assms(2) by auto
  have "splitnetloc (''//'' @ host @ r) 2 =
          (takeWhile ?P (drop 2 (''//'' @ host @ r)), dropWhile ?P (drop 2 (''//'' @ host @ r)))"
    by (rule splitnetloc_takeWhile) simp
  then show ?thesis
    using takeWhile_host [OF h r] by simp
qed

lemma urlsplit_authority:
  assumes "sch \<noteq> []" and "set sch \<subseteq> set scheme_chars"
  shows "urlsplit (sch @ ''://'' @ host @ r) = split_rest (lower sch) (''//'' @ host @ r)"
proof -
  have f: "find_char (CHR '':'') (sch @ CHR '':'' # ''//'' @ host @ r) = Some (length sch)"
    using scheme_chars_colon [OF assms(2)] by (rule find_char_first)
  have all: "list_all (\<lambda>c. c \<in> set scheme_chars) sch"
    using assms(2) by (auto simp: list_all_iff)
  show ?thesis
    using assms(1) all f by (simp add: urlsplit_def)
qed

lemma urlsplit_error:
  assumes "urlsplit url = Inl e"
  shows "e = ValueError"
proof -
  from assms obtain sch u where "split_rest sch u = Inl e"
    unfolding urlsplit_def Let_def by (auto split: option.splits if_splits)
  moreover obtain netloc url1 where
    "(if take 2 u = ''//'' then splitnetloc u 2 else ([], u)) = (netloc, url1)"
    by (cases "if take 2 u = ''//'' then splitnetloc u 2 else ([], u)")
  ultimately show ?thesis
    using split_rest_error(2) by blast
qed

text \<open>
  C10, as the code has it: when \<open>urlsplit\<close> refuses the URL (exactly one of \<open>[\<close> and \<open>]\<close>
  in the network location) \<open>ws_to_http\<close> raises \<open>ValueError\<close>. On every other URL it
  returns \<open>http://\<close> for the scheme \<open>ws\<close> and \<open>https://\<close> for the scheme \<open>wss\<close>, followed by
  the network location and the path, and raises \<open>KeyError\<close> for any other scheme; the
  network location and the path hold no \<open>?\<close> and no \<open>#\<close>, so the query and the fragment
  are not in the result. In terms of the text of a URL \<open>sch://host\<close> followed by \<open>r\<close>,
  where \<open>sch\<close> is not empty and made of scheme characters, \<open>host\<close> holds none of \<open>/\<close>, \<open>?\<close>,
  \<open>#\<close>, and \<open>r\<close> is empty or starts with one of them: the result is \<open>ValueError\<close> when
  exactly one of \<open>[\<close> and \<open>]\<close> occurs in \<open>host\<close>; otherwise, with the scheme in lower
  case, \<open>http://\<close> for \<open>ws\<close> and \<open>https://\<close> for \<open>wss\<close>, followed by \<open>host\<close> and by \<open>r\<close> up to
  its first \<open>?\<close> or \<open>#\<close>, and \<open>KeyError\<close> for any other scheme.
\<close>

theorem ws_to_http_url:
  "(\<forall>e. urlsplit url = Inl e \<longrightarrow> e = ValueError \<and> ws_to_http url = Inl ValueError) \<and>
   (\<forall>parts. urlsplit url = Inr parts \<longrightarrow>
      (sr_scheme parts = ''ws'' \<longrightarrow>
         ws_to_http url = Inr (''http://'' @ sr_netloc parts @ sr_path parts)) \<and>
      (sr_scheme parts = ''wss'' \<longrightarrow>
         ws_to_http url = Inr (''https://'' @ sr_netloc parts @ sr_path parts)) \<and>
      (sr_scheme parts \<noteq> ''ws'' \<and> sr_scheme parts \<noteq> ''wss'' \<longrightarrow>
         ws_to_http url = Inl (KeyError (sr_scheme parts))) \<and>
      CHR ''?'' \<notin> set (sr_netloc parts @ sr_path parts) \<and>
      CHR ''#'' \<notin> set (sr_netloc parts @ sr_path parts)) \<and>
   (sch \<noteq> [] \<and> set sch \<subseteq> set scheme_chars \<and> (\<forall>c \<in> set host. c \<notin> set ''/?#'') \<and>
      (r = [] \<or> hd r \<in> set ''/?#'') \<longrightarrow>
      ws_to_http (sch @ ''://'' @ host @ r) =
        (if (CHR ''['' \<in> set host) \<noteq> (CHR '']'' \<in> set host) then Inl ValueError
         else if lower sch = ''ws'' then
           Inr (''http://'' @ host @ takeWhile (\<lambda>c. c \<noteq> CHR ''?'' \<and> c \<noteq> CHR ''#'') r)
         else if lower sch = ''wss'' then
           Inr (''https://'' @ host @ takeWhile (\<lambda>c. c \<noteq> CHR ''?'' \<and> c \<noteq> CHR ''#'') r)
         else Inl (KeyError (lower sch))))"
proof (intro conjI allI impI)
  fix e assume e: "urlsplit url = Inl e"
  then show "e = ValueError" by (rule urlsplit_error)
  with e show "ws_to_http url = Inl ValueError" by (simp add: ws_to_http_def)
next
  fix parts assume p: "urlsplit url = Inr parts"
  {
    assume "sr_scheme parts = ''ws''"
    with p show "ws_to_http url = Inr (''http://'' @ sr_netloc parts @ sr_path parts)"
      by (simp add: ws_to_http_def)
  }
  {
    assume "sr_scheme parts = ''wss''"
    with p show "ws_to_http url = Inr (''https://'' @ sr_netloc parts @ sr_path parts)"
      by (simp add: ws_to_http_def)
  }
  {
    assume "sr_scheme parts \<noteq> ''ws'' \<and> sr_scheme parts \<noteq> ''wss''"
    with p show "ws_to_http url = Inl (KeyError (sr_scheme parts))"
      by (simp add: ws_to_http_def)
  }
  from urlsplit_clean [OF p]
  show "CHR ''?'' \<notin> set (sr_netloc parts @ sr_path parts)"
    "CHR ''#'' \<notin> set (sr_netloc parts @ sr_path parts)"
    by simp_all
next
  assume a: "sch \<noteq> [] \<and> set sch \<subseteq> set scheme_chars \<and> (\<forall>c \<in> set host. c \<notin> set ''/?#'') \<and>
      (r = [] \<or> hd r \<in> set ''/?#'')"
  then have u: "urlsplit (sch @ ''://'' @ host @ r) = split_rest (lower sch) (''//'' @ host @ r)"
    by (intro urlsplit_authority) simp_all
  from a have nl: "(if take 2 (''//'' @ host @ r) = ''//'' then splitnetloc (''//'' @ host @ r) 2
          else ([], ''//'' @ host @ r)) = (host, r)"
    by (intro splitnetloc_authority) simp_all
  show "ws_to_http (sch @ ''://'' @ host @ r) =
        (if (CHR ''['' \<in> set host) \<noteq> (CHR '']'' \<in> set host) then Inl ValueError
         else if lower sch = ''ws'' then
           Inr (''http://'' @ host @ takeWhile (\<lambda>c. c \<noteq> CHR ''?'' \<and> c \<noteq> CHR ''#'') r)
         else if lower sch = ''wss'' then
           Inr (''https://'' @ host @ takeWhile (\<lambda>c. c \<noteq> CHR ''?'' \<and> c \<noteq> CHR ''#'') r)
         else Inl (KeyError (lower sch)))"
  proof (cases "split_rest (lower sch) (''//'' @ host @ r)")
    case (Inl e)
    from split_rest_error(2) [OF nl Inl] have e: "e = ValueError" .
    from split_rest_error(1) [OF nl, of "lower sch"] Inl
    have "(CHR ''['' \<in> set host) \<noteq> (CHR '']'' \<in> set host)"
      by simp
    with Inl e show ?thesis
      unfolding ws_to_http_def u by simp
  next
    case (Inr parts)
    from split_rest_error(1) [OF nl, of "lower sch"] Inr
    have b: "\<not> ((CHR ''['' \<in> set host) \<noteq> (CHR '']'' \<in> set host))"
      by simp
    from split_rest_parts [OF Inr nl] b Inr show ?thesis
      unfolding ws_to_http_def u by simp
  qed
qed

theorem ws_to_http_url_witness:
  "urlsplit ''ws://[::1/x'' = Inl ValueError \<and>
   ws_to_http ''ws://[::1/x'' = Inl ValueError \<and>
   urlsplit ''ws://example.com:17070/ws?x=1#frag'' =
     Inr \<lparr>sr_scheme = ''ws'', sr_netloc = ''example.com:17070'', sr_path = ''/ws'',
           sr_query = ''x=1'', sr_fragment = ''frag''\<rparr> \<and>
   ws_to_http ''ws://example.com:17070/ws?x=1#frag'' = Inr ''http://example.com:17070/ws'' \<and>
   ws_to_http ''WSS://1.2.3.4/ws?x=1#frag'' = Inr ''https://1.2.3.4/ws'' \<and>
   ws_to_http ''ftp://host/ws'' = Inl (KeyError ''ftp'')"
proof -
  have a: "urlsplit ''ws://[::1/x'' = Inl ValueError"
    by code_simp
  have b: "urlsplit ''ws://example.com:17070/ws?x=1#frag'' =
     Inr \<lparr>sr_scheme = ''ws'', sr_netloc = ''example.com:17070'', sr_path = ''/ws'',
           sr_query = ''x=1'', sr_fragment = ''frag''\<rparr>"
    by code_simp
  have c: "''WSS'' \<noteq> [] \<and> set ''WSS'' \<subseteq> set scheme_chars \<and>
      (\<forall>c \<in> set ''1.2.3.4''. c \<notin> set ''/?#'') \<and>
      (''/ws?x=1#frag'' = [] \<or> hd ''/ws?x=1#frag'' \<in> set ''/?#'')"
    by (simp add: scheme_chars_def)
  have d: "''ftp'' \<noteq> [] \<and> set ''ftp'' \<subseteq> set scheme_chars \<and>
      (\<forall>c \<in> set ''host''. c \<notin> set ''/?#'') \<and> (''/ws'' = [] \<or> hd ''/ws'' \<in> set ''/?#'')"
    by (simp add: scheme_chars_def)
  have l: "lower ''WSS'' = ''wss''" "lower ''ftp'' = ''ftp''"
    by (simp_all add: lower_def lower_char_def)
  from ws_to_http_url [of "''ws://[::1/x''", THEN conjunct1, rule_format, OF a]
  have 1: "ws_to_http ''ws://[::1/x'' = Inl ValueError"
    by simp
  from ws_to_http_url [of "''ws://example.com:17070/ws?x=1#frag''",
      THEN conjunct2, THEN conjunct1, rule_format, OF b]
  have 2: "ws_to_http ''ws://example.com:17070/ws?x=1#frag'' = Inr ''http://example.com:17070/ws''"
    by simp
  from ws_to_http_url [of _ "''WSS''" "''1.2.3.4''" "''/ws?x=1#frag''",
      THEN conjunct2, THEN conjunct2, rule_format, OF c]
  have 3: "ws_to_http ''WSS://1.2.3.4/ws?x=1#frag'' = Inr ''https://1.2.3.4/ws''"
    by (simp add: l)
  from ws_to_http_url [of _ "''ftp''" "''host''" "''/ws''",
      THEN conjunct2, THEN conjunct2, rule_format, OF d]
  have 4: "ws_to_http ''ftp://host/ws'' = Inl (KeyError ''ftp'')"
    by (simp add: l)
  show ?thesis
    by (intro conjI a b 1 2 3 4)
qed

text \<open>
  C10 as stated fails: a URL whose scheme is \<open>ftp\<close> does not always raise \<open>KeyError\<close>,
  and a URL whose scheme is \<open>ws\<close> is not always mapped. With an opening bracket and no
  closing one in the network location, \<open>urlsplit\<close> raises \<open>ValueError\<close>.
\<close>

theorem ws_to_http_value_error_counterexample:
  "ws_to_http ''ftp://[::1/x'' = Inl ValueError \<and>
   ws_to_http ''ws://[::1/x'' = Inl ValueError"
  by code_simp

subsection \<open>Formatting a target template\<close>

lemma str_format_text:
  "CHR ''{'' \<notin> set s \<Longrightarrow> CHR ''}'' \<notin> set s \<Longrightarrow>
   str_format (s @ r) kw = map_sum id ((@) s) (str_format r kw)"
proof (induction s)
  case Nil
  show ?case by (simp add: sum.map_id0 flip: id_def)
next
  case (Cons c s)
  then show ?case by (cases "str_format r kw") auto
qed

lemma str_format_field:
  assumes "piece_ok (Field n)"
  shows "str_format (''{'' @ n @ ''}'' @ r) kw =
     (case map_of kw n of
        None \<Rightarrow> Inl (KeyError n)
      | Some v \<Rightarrow> map_sum id ((@) v) (str_format r kw))"
proof -
  from assms have n: "CHR ''}'' \<notin> set n" "CHR ''{'' \<notin> set n" "\<not> field_unsupported n"
    "\<not> list_all is_digit n"
    by (auto simp: list_ex_iff field_unsupported_def)
  then have ne: "n \<noteq> []" by auto
  have tw: "takeWhile (\<lambda>x. x \<noteq> CHR ''}'') (n @ CHR ''}'' # r) = n"
    using n(1) by (induction n) auto
  have dw: "dropWhile (\<lambda>x. x \<noteq> CHR ''}'') (n @ CHR ''}'' # r) = CHR ''}'' # r"
    using n(1) by (induction n) auto
  have sw: "\<not> startswith (n @ CHR ''}'' # r) ''{''"
    using ne n(2) by (cases n) auto
  show ?thesis
    using tw dw sw n(3,4)
    by (cases "str_format r kw") (auto simp: Let_def split: option.splits)
qed

lemma str_format_pieces:
  assumes "list_all piece_ok ps" "list_all (captured kw) ps"
  shows "str_format (template_text ps) kw = Inr (fill kw ps)"
  using assms
proof (induction ps)
  case Nil
  show ?case by (simp add: template_text_def fill_def)
next
  case (Cons a ps)
  then have ih: "str_format (template_text ps) kw = Inr (fill kw ps)" by simp
  show ?case
  proof (cases a)
    case (Text s)
    with Cons.prems have "CHR ''{'' \<notin> set s" "CHR ''}'' \<notin> set s" by auto
    from str_format_text [OF this, of "template_text ps" kw] Text ih show ?thesis
      by (simp add: template_text_def fill_def)
  next
    case (Field n)
    with Cons.prems obtain v where v: "map_of kw n = Some v" by auto
    from Field Cons.prems have "piece_ok (Field n)" by simp
    from str_format_field [OF this, of "template_text ps" kw] v Field ih show ?thesis
      by (simp add: template_text_def fill_def)
  qed
qed

lemma str_format_missing:
  assumes "list_all piece_ok ps" "\<not> list_all (captured kw) ps"
  shows "\<exists>n. str_format (template_text ps) kw = Inl (KeyError n) \<and>
             Field n \<in> set ps \<and> map_of kw n = None"
  using assms
proof (induction ps)
  case Nil
  then show ?case by simp
next
  case (Cons a ps)
  show ?case
  proof (cases "captured kw a")
    case False
    then obtain n where a: "a = Field n" and none: "map_of kw n = None"
      by (cases a) auto
    from a Cons.prems have "piece_ok (Field n)" by simp
    from str_format_field [OF this, of "template_text ps" kw] none a show ?thesis
      by (auto simp: template_text_def)
  next
    case True
    with Cons obtain n where n: "str_format (template_text ps) kw = Inl (KeyError n)"
      "Field n \<in> set ps" "map_of kw n = None"
      by auto
    show ?thesis
    proof (cases a)
      case (Text s)
      with Cons.prems have "CHR ''{'' \<notin> set s" "CHR ''}'' \<notin> set s" by auto
      from str_format_text [OF this, of "template_text ps" kw] Text n show ?thesis
        by (auto simp: template_text_def)
    next
      case (Field m)
      with True obtain v where v: "map_of kw m = Some v" by auto
      from Field Cons.prems have "piece_ok (Field m)" by simp
      from str_format_field [OF this, of "template_text ps" kw] v Field n show ?thesis
        by (auto simp: template_text_def)
    qed
  qed
qed

lemma occurs_set: "occurs (c # sub) s \<Longrightarrow> c \<in> set s"
proof -
  assume "occurs (c # sub) s"
  then obtain i where "startswith (drop i s) (c # sub)"
    by (auto simp: occurs_def list_ex_iff)
  then have "drop i s \<noteq> [] \<and> hd (drop i s) = c"
    by (cases "drop i s") auto
  then show ?thesis
    by (metis in_set_dropD list.set_sel(1))
qed

lemma fill_no_brace:
  assumes "list_all piece_ok ps" "list_all (captured kw) ps"
    and "\<forall>v \<in> snd ` set kw. CHR ''{'' \<notin> set v"
  shows "CHR ''{'' \<notin> set (fill kw ps)"
  using assms
proof (induction ps)
  case Nil
  show ?case by (simp add: fill_def)
next
  case (Cons a ps)
  then have ih: "CHR ''{'' \<notin> set (fill kw ps)" by simp
  have "CHR ''{'' \<notin> set (fill_piece kw a)"
  proof (cases a)
    case (Text s)
    with Cons.prems show ?thesis by simp
  next
    case (Field n)
    with Cons.prems obtain v where v: "map_of kw n = Some v" by auto
    then have "v \<in> snd ` set kw" by (force dest: map_of_SomeD)
    with Cons.prems(3) have "CHR ''{'' \<notin> set v" by blast
    with v Field show ?thesis by simp
  qed
  with ih show ?case by (simp add: fill_def)
qed

subsection \<open>The matcher and the splits\<close>

lemma startswith_take: "startswith s v \<longleftrightarrow> take (length v) s = v"
  by (induction s v rule: startswith.induct) auto

lemma startswith_append: "startswith (v @ s) v"
  by (induction v) auto

lemma startswith_length: "startswith s v \<Longrightarrow> length v \<le> length s"
  by (induction s v rule: startswith.induct) auto

lemma take_takeWhile_all: "k \<le> length (takeWhile P s) \<Longrightarrow> list_all P (take k s)"
proof (induction s arbitrary: k)
  case Nil
  show ?case by simp
next
  case (Cons c s)
  then show ?case by (cases k) (auto split: if_splits)
qed

lemma prefix_all_takeWhile:
  "startswith s v \<Longrightarrow> list_all P v \<Longrightarrow> length v \<le> length (takeWhile P s)"
  by (induction s v rule: startswith.induct) auto

lemma first_success_None: "first_success f ks = None \<longleftrightarrow> (\<forall>k \<in> set ks. f k = None)"
  by (induction ks) (auto split: option.splits)

lemma first_success_split:
  "first_success f ks = Some r \<Longrightarrow>
   \<exists>xs k ys. ks = xs @ k # ys \<and> f k = Some r \<and> (\<forall>x \<in> set xs. f x = None)"
proof (induction ks)
  case Nil
  then show ?case by simp
next
  case (Cons a ks)
  show ?case
  proof (cases "f a")
    case None
    with Cons obtain xs k ys where "ks = xs @ k # ys" "f k = Some r" "\<forall>x \<in> set xs. f x = None"
      by auto
    with None have "a # ks = (a # xs) @ k # ys \<and> f k = Some r \<and> (\<forall>x \<in> set (a # xs). f x = None)"
      by simp
    then show ?thesis by blast
  next
    case (Some r')
    with Cons.prems have "a # ks = [] @ a # ks \<and> f a = Some r \<and> (\<forall>x \<in> set []. f x = None)"
      by simp
    then show ?thesis by blast
  qed
qed

lemma counts_split:
  assumes "counts a m s = xs @ k # ys"
  shows "m \<le> k" "k \<le> length (takeWhile (atom_ok a) s)"
    "\<And>j. k < j \<Longrightarrow> j \<le> length (takeWhile (atom_ok a) s) \<Longrightarrow> j \<in> set xs"
proof -
  let ?n = "length (takeWhile (atom_ok a) s)"
  have k: "k \<in> set (counts a m s)" using assms by simp
  then show "m \<le> k" "k \<le> ?n" by (auto simp: counts_def simp del: upt_Suc)
  fix j assume j: "k < j" "j \<le> ?n"
  with \<open>m \<le> k\<close> have jin: "j \<in> set (xs @ k # ys)"
    unfolding assms [symmetric] by (auto simp: counts_def simp del: upt_Suc)
  have "sorted (rev (counts a m s))" by (simp add: counts_def del: upt_Suc)
  then have "sorted (rev ys @ k # rev xs)" using assms by simp
  then have "\<forall>y \<in> set ys. y \<le> k" by (auto simp: sorted_append)
  with j jin show "j \<in> set xs" by auto
qed

lemma match_items_sound:
  "match_items its s caps = Some g \<Longrightarrow>
   \<exists>vals. fits its s vals \<and> g = caps @ zip (group_names its) vals \<and>
          length vals = length (group_names its)"
proof (induction its s caps rule: match_items.induct)
  case (1 s caps)
  then show ?case by simp
next
  case (2 a its s caps)
  then show ?case by (cases s) (auto split: if_splits)
next
  case (3 its s caps)
  then show ?case by (auto split: if_splits)
next
  case (4 n a m its s caps)
  from 4(2) obtain xs k ys where k: "counts a m s = xs @ k # ys"
    and mk: "match_items its (drop k s) (caps @ [(n, take k s)]) = Some g"
    by (auto dest!: first_success_split)
  from 4(1) [OF mk] obtain vals where v: "fits its (drop k s) vals"
    "g = (caps @ [(n, take k s)]) @ zip (group_names its) vals"
    "length vals = length (group_names its)"
    by blast
  from counts_split(1,2) [OF k] have kb: "m \<le> k" "k \<le> length (takeWhile (atom_ok a) s)" .
  have kl: "k \<le> length s"
    using kb(2) length_takeWhile_le [of "atom_ok a" s] by linarith
  then have lt: "length (take k s) = k" by simp
  have "fits (Group n a m # its) s (take k s # vals)"
    using v(1) kb kl by (simp add: startswith_take take_takeWhile_all)
  with v(2,3) show ?case
    by (intro exI [of _ "take k s # vals"]) simp
qed

lemma match_items_complete:
  "fits its s vals \<Longrightarrow> match_items its s caps \<noteq> None"
proof (induction its s caps arbitrary: vals rule: match_items.induct)
  case (1 s caps)
  then show ?case by simp
next
  case (2 a its s caps)
  then show ?case by (cases s) auto
next
  case (3 its s caps)
  then show ?case by auto
next
  case (4 n a m its s caps)
  from 4(2) obtain v vs where vals: "vals = v # vs" and sw: "startswith s v"
    and ok: "list_all (atom_ok a) v" and mv: "m \<le> length v"
    and rest: "fits its (drop (length v) s) vs"
    by (cases vals) auto
  have "length v \<in> set (counts a m s)"
    using mv prefix_all_takeWhile [OF sw ok] by (simp add: counts_def del: upt_Suc)
  moreover have "match_items its (drop (length v) s) (caps @ [(n, take (length v) s)]) \<noteq> None"
    using rest by (rule 4(1))
  ultimately show ?case
    by (auto simp: first_success_None)
qed

lemma match_items_greedy:
  assumes "match_items its s caps = Some (caps @ zip (group_names its) vals)"
    and "length vals = length (group_names its)"
    and "fits its s ws"
  shows "tried_first vals ws"
  using assms
proof (induction its s caps arbitrary: vals ws rule: match_items.induct)
  case (1 s caps)
  then show ?case by simp
next
  case (2 a its s caps)
  then show ?case by (cases s) (auto split: if_splits)
next
  case (3 its s caps)
  then show ?case by (auto split: if_splits)
next
  case (4 n a m its s caps)
  from 4(3) obtain v vs where vals: "vals = v # vs" by (cases vals) auto
  from 4(4) obtain w ws' where ws: "ws = w # ws'" and sw: "startswith s w"
    and ok: "list_all (atom_ok a) w" and mw: "m \<le> length w"
    and rest: "fits its (drop (length w) s) ws'"
    by (cases ws) auto
  from 4(2) obtain xs k ys where k: "counts a m s = xs @ k # ys"
    and mk: "match_items its (drop k s) (caps @ [(n, take k s)]) =
             Some (caps @ zip (group_names (Group n a m # its)) vals)"
    and none: "\<forall>x \<in> set xs. match_items its (drop x s) (caps @ [(n, take x s)]) = None"
    by (auto dest!: first_success_split)
  from match_items_sound [OF mk] obtain vals' where
    v': "caps @ zip (group_names (Group n a m # its)) vals =
         (caps @ [(n, take k s)]) @ zip (group_names its) vals'"
    "length vals' = length (group_names its)"
    by blast
  with vals 4(3) have eq: "v = take k s" "vs = vals'"
    by (auto simp: zip_eq_conv)
  from counts_split(2) [OF k] have kl: "k \<le> length s"
    using length_takeWhile_le [of "atom_ok a" s] by linarith
  then have lv: "length v = k" using eq(1) by simp
  have wle: "length w \<le> k"
  proof (rule ccontr)
    assume "\<not> length w \<le> k"
    then have "k < length w" by simp
    from counts_split(3) [OF k this prefix_all_takeWhile [OF sw ok]]
    have "length w \<in> set xs" .
    with none have "match_items its (drop (length w) s) (caps @ [(n, take (length w) s)]) = None"
      by blast
    with match_items_complete [OF rest] show False by blast
  qed
  show ?case
  proof (cases "length w < k")
    case True
    then show ?thesis using vals ws lv by simp
  next
    case False
    with wle have wk: "length w = k" by simp
    have "match_items its (drop k s) (caps @ [(n, take k s)]) =
          Some ((caps @ [(n, take k s)]) @ zip (group_names its) vs)"
      using mk v'(1) eq by simp
    from 4(1) [OF this] v'(2) eq(2) rest wk have "tried_first vs ws'"
      by simp
    then show ?thesis using vals ws lv wk by simp
  qed
qed

lemma search_from_iff:
  "search_from its s = Some g \<longleftrightarrow>
   (\<exists>i \<le> length s. match_items its (drop i s) [] = Some g \<and>
      (\<forall>j < i. match_items its (drop j s) [] = None))"
proof (induction s)
  case Nil
  show ?case by auto
next
  case (Cons c s)
  show ?case
  proof (cases "match_items its (c # s) []")
    case (Some g')
    have "(\<exists>i \<le> length (c # s). match_items its (drop i (c # s)) [] = Some g \<and>
            (\<forall>j < i. match_items its (drop j (c # s)) [] = None)) \<longleftrightarrow> g' = g"
    proof
      assume "\<exists>i \<le> length (c # s). match_items its (drop i (c # s)) [] = Some g \<and>
            (\<forall>j < i. match_items its (drop j (c # s)) [] = None)"
      then obtain i where i: "match_items its (drop i (c # s)) [] = Some g"
        "\<forall>j < i. match_items its (drop j (c # s)) [] = None" by blast
      have "i = 0"
      proof (rule ccontr)
        assume "i \<noteq> 0"
        then have "0 < i" by simp
        with i(2) have "match_items its (drop 0 (c # s)) [] = None" by blast
        with Some show False by simp
      qed
      with i(1) Some show "g' = g" by simp
    next
      assume "g' = g"
      with Some have "0 \<le> length (c # s) \<and> match_items its (drop 0 (c # s)) [] = Some g \<and>
            (\<forall>j < 0. match_items its (drop j (c # s)) [] = None)" by simp
      then show "\<exists>i \<le> length (c # s). match_items its (drop i (c # s)) [] = Some g \<and>
            (\<forall>j < i. match_items its (drop j (c # s)) [] = None)" by blast
    qed
    with Some show ?thesis by simp
  next
    case None
    have "(\<exists>i \<le> length (c # s). match_items its (drop i (c # s)) [] = Some g \<and>
            (\<forall>j < i. match_items its (drop j (c # s)) [] = None)) \<longleftrightarrow>
          (\<exists>i \<le> length s. match_items its (drop i s) [] = Some g \<and>
            (\<forall>j < i. match_items its (drop j s) [] = None))"
    proof
      assume "\<exists>i \<le> length (c # s). match_items its (drop i (c # s)) [] = Some g \<and>
            (\<forall>j < i. match_items its (drop j (c # s)) [] = None)"
      then obtain i where i: "i \<le> length (c # s)" "match_items its (drop i (c # s)) [] = Some g"
        "\<forall>j < i. match_items its (drop j (c # s)) [] = None" by blast
      from i(2) None obtain i' where i': "i = Suc i'" by (cases i) auto
      have "\<forall>j < i'. match_items its (drop j s) [] = None"
      proof (intro allI impI)
        fix j assume "j < i'"
        then have "Suc j < i" using i' by simp
        with i(3) have "match_items its (drop (Suc j) (c # s)) [] = None" by blast
        then show "match_items its (drop j s) [] = None" by simp
      qed
      with i i' show "\<exists>i \<le> length s. match_items its (drop i s) [] = Some g \<and>
            (\<forall>j < i. match_items its (drop j s) [] = None)"
        by (intro exI [of _ i']) simp
    next
      assume "\<exists>i \<le> length s. match_items its (drop i s) [] = Some g \<and>
            (\<forall>j < i. match_items its (drop j s) [] = None)"
      then obtain i where i: "i \<le> length s" "match_items its (drop i s) [] = Some g"
        "\<forall>j < i. match_items its (drop j s) [] = None" by blast
      have "\<forall>j < Suc i. match_items its (drop j (c # s)) [] = None"
      proof (intro allI impI)
        fix j assume j: "j < Suc i"
        show "match_items its (drop j (c # s)) [] = None"
        proof (cases j)
          case 0
          with None show ?thesis by simp
        next
          case (Suc j')
          with j i(3) show ?thesis by simp
        qed
      qed
      with i show "\<exists>i \<le> length (c # s). match_items its (drop i (c # s)) [] = Some g \<and>
            (\<forall>j < i. match_items its (drop j (c # s)) [] = None)"
        by (intro exI [of _ "Suc i"]) simp
    qed
    with None Cons show ?thesis by simp
  qed
qed

lemma search_from_None:
  "search_from its s = None \<longleftrightarrow> (\<forall>i \<le> length s. match_items its (drop i s) [] = None)"
proof (induction s)
  case Nil
  show ?case by simp
next
  case (Cons c s)
  have "(\<forall>i \<le> length (c # s). match_items its (drop i (c # s)) [] = None) \<longleftrightarrow>
        (match_items its (c # s) [] = None \<and>
         (\<forall>i \<le> length s. match_items its (drop i s) [] = None))"
    (is "?L \<longleftrightarrow> ?R")
  proof
    assume l: ?L
    then have "match_items its (drop 0 (c # s)) [] = None" by blast
    moreover have "\<forall>i \<le> length s. match_items its (drop i s) [] = None"
    proof (intro allI impI)
      fix i assume "i \<le> length s"
      then have "Suc i \<le> length (c # s)" by simp
      with l have "match_items its (drop (Suc i) (c # s)) [] = None" by blast
      then show "match_items its (drop i s) [] = None" by simp
    qed
    ultimately show ?R by simp
  next
    assume r: ?R
    show ?L
    proof (intro allI impI)
      fix i assume "i \<le> length (c # s)"
      with r show "match_items its (drop i (c # s)) [] = None"
        by (cases i) auto
    qed
  qed
  with Cons show ?case by (simp split: option.splits)
qed

subsection \<open>From the source template to the compiled pattern\<close>

lemma stage_0: "concat (map (stage 0) ts) = template_source ts"
proof (induction ts)
  case Nil
  show ?case by (simp add: template_source_def)
next
  case (Cons t ts)
  then show ?case by (cases t) (simp_all add: template_source_def)
qed

lemma replace_from_pass:
  "CHR ''$'' \<notin> set x \<Longrightarrow>
   replace_from (CHR ''$'' # w) new (x @ r) = x @ replace_from (CHR ''$'' # w) new r"
  by (induction x) auto

lemma replace_from_hit:
  "replace_from (c # w) new ((c # w) @ r) = new @ replace_from (c # w) new r"
  by (simp add: startswith_append)

lemma replace_from_miss:
  "\<not> startswith r w \<Longrightarrow>
   replace_from (c # w) new (c # r) = c # replace_from (c # w) new r"
  by simp

text \<open>A word without \<open>$\<close> and \<open>(\<close> starts the template at every stage or at none.\<close>

lemma startswith_stage:
  "CHR ''$'' \<notin> set w \<Longrightarrow> CHR ''('' \<notin> set w \<Longrightarrow>
   startswith (concat (map (stage k) ts)) w = startswith (template_source ts) w"
proof (induction ts arbitrary: w)
  case Nil
  show ?case by (simp add: template_source_def)
next
  case (Cons t ts)
  show ?case
  proof (cases w)
    case Nil
    then show ?thesis by simp
  next
    case (Cons x w')
    with Cons.prems have x: "x \<noteq> CHR ''$''" "x \<noteq> CHR ''(''"
      and w': "CHR ''$'' \<notin> set w'" "CHR ''('' \<notin> set w'"
      by auto
    from Cons.IH [OF w'] x show ?thesis
      unfolding Cons by (cases t) (auto simp: template_source_def)
  qed
qed

lemma special_dollar: "\<not> special c \<Longrightarrow> c \<noteq> CHR ''$''"
  by (auto simp: special_def)

lemma replace_server:
  "tokens_ok ts \<Longrightarrow>
   replace_from ''$server'' ''(?P<server>.*)'' (concat (map (stage 0) ts)) =
   concat (map (stage 1) ts)"
proof (induction ts)
  case Nil
  show ?case by simp
next
  case (Cons t ts)
  show ?case
  proof (cases t)
    case (Chr c)
    with Cons show ?thesis by (auto dest: special_dollar)
  next
    case Dollar
    with Cons.prems have "\<not> startswith (concat (map (stage 0) ts)) ''server''"
      by (simp add: startswith_stage)
    from replace_from_miss [OF this] Cons Dollar show ?thesis by simp
  next
    case Server
    with Cons have ih: "replace_from ''$server'' ''(?P<server>.*)'' (concat (map (stage 0) ts)) =
      concat (map (stage 1) ts)" by simp
    from replace_from_hit [of "CHR ''$''" "''server''" "''(?P<server>.*)''" "concat (map (stage 0) ts)"]
      ih Server show ?thesis by simp
  next
    case Port
    with Cons have ih: "replace_from ''$server'' ''(?P<server>.*)'' (concat (map (stage 0) ts)) =
      concat (map (stage 1) ts)" by simp
    with Port show ?thesis by simp
  next
    case Uuid
    with Cons have ih: "replace_from ''$server'' ''(?P<server>.*)'' (concat (map (stage 0) ts)) =
      concat (map (stage 1) ts)" by simp
    with Uuid show ?thesis by simp
  qed
qed

lemma replace_port:
  "tokens_ok ts \<Longrightarrow>
   replace_from ''$port'' (''(?P<port>'' @ [backslash] @ ''d+)'') (concat (map (stage 1) ts)) =
   concat (map (stage 2) ts)"
proof (induction ts)
  case Nil
  show ?case by simp
next
  case (Cons t ts)
  show ?case
  proof (cases t)
    case (Chr c)
    with Cons show ?thesis by (auto dest: special_dollar)
  next
    case Dollar
    with Cons.prems have "\<not> startswith (concat (map (stage 1) ts)) ''port''"
      by (simp add: startswith_stage)
    from replace_from_miss [OF this] Cons Dollar show ?thesis by simp
  next
    case Server
    with Cons have ih: "replace_from ''$port'' (''(?P<port>'' @ [backslash] @ ''d+)'') (concat (map (stage 1) ts)) =
      concat (map (stage 2) ts)" by simp
    with Server show ?thesis by simp
  next
    case Port
    with Cons have ih: "replace_from ''$port'' (''(?P<port>'' @ [backslash] @ ''d+)'') (concat (map (stage 1) ts)) =
      concat (map (stage 2) ts)" by simp
    from replace_from_hit [of "CHR ''$''" "''port''" "''(?P<port>'' @ [backslash] @ ''d+)''" "concat (map (stage 1) ts)"]
      ih Port show ?thesis by simp
  next
    case Uuid
    with Cons have ih: "replace_from ''$port'' (''(?P<port>'' @ [backslash] @ ''d+)'') (concat (map (stage 1) ts)) =
      concat (map (stage 2) ts)" by simp
    with Uuid show ?thesis by simp
  qed
qed

lemma backslash_dollar: "backslash \<noteq> CHR ''$''"
  by (simp add: backslash_def)

lemma replace_uuid:
  "tokens_ok ts \<Longrightarrow>
   replace_from ''$uuid'' ''(?P<uuid>.*)'' (concat (map (stage 2) ts)) =
   concat (map (stage 3) ts)"
proof (induction ts)
  case Nil
  show ?case by simp
next
  case (Cons t ts)
  show ?case
  proof (cases t)
    case (Chr c)
    with Cons show ?thesis by (auto dest: special_dollar)
  next
    case Dollar
    with Cons.prems have "\<not> startswith (concat (map (stage 2) ts)) ''uuid''"
      by (simp add: startswith_stage)
    from replace_from_miss [OF this] Cons Dollar show ?thesis by simp
  next
    case Server
    with Cons have ih: "replace_from ''$uuid'' ''(?P<uuid>.*)'' (concat (map (stage 2) ts)) =
      concat (map (stage 3) ts)" by simp
    with Server show ?thesis by simp
  next
    case Port
    with Cons have ih: "replace_from ''$uuid'' ''(?P<uuid>.*)'' (concat (map (stage 2) ts)) =
      concat (map (stage 3) ts)" by simp
    with Port show ?thesis by (simp add: backslash_dollar)
  next
    case Uuid
    with Cons have ih: "replace_from ''$uuid'' ''(?P<uuid>.*)'' (concat (map (stage 2) ts)) =
      concat (map (stage 3) ts)" by simp
    from replace_from_hit [of "CHR ''$''" "''uuid''" "''(?P<uuid>.*)''" "concat (map (stage 2) ts)"]
      ih Uuid show ?thesis by simp
  qed
qed

lemma make_pattern_tokens:
  "tokens_ok ts \<Longrightarrow> make_pattern (template_source ts) = concat (map (stage 3) ts)"
proof -
  assume ok: "tokens_ok ts"
  have "make_pattern (template_source ts) =
        replace_from ''$uuid'' ''(?P<uuid>.*)''
          (replace_from ''$port'' (''(?P<port>'' @ [backslash] @ ''d+)'')
             (replace_from ''$server'' ''(?P<server>.*)'' (concat (map (stage 0) ts))))"
    by (simp add: make_pattern_def str_replace_def stage_0)
  also have "\<dots> = concat (map (stage 3) ts)"
    by (simp only: replace_server [OF ok] replace_port [OF ok] replace_uuid [OF ok])
  finally show ?thesis .
qed

lemma parse_group_server:
  "parse_group (''(?P<server>.*)'' @ r) = Some (Group ''server'' AAny 0, r)"
  by (simp add: parse_group_def is_name_def is_name_char_def is_alpha_def is_digit_def
      backslash_def)

lemma parse_group_port:
  "parse_group (''(?P<port>'' @ [backslash] @ ''d+)'' @ r) = Some (Group ''port'' ADigit 1, r)"
  by (simp add: parse_group_def is_name_def is_name_char_def is_alpha_def is_digit_def
      backslash_def)

lemma parse_group_uuid:
  "parse_group (''(?P<uuid>.*)'' @ r) = Some (Group ''uuid'' AAny 0, r)"
  by (simp add: parse_group_def is_name_def is_name_char_def is_alpha_def is_digit_def
      backslash_def)

lemma token_names_set:
  "set (token_names ts) \<subseteq> {''server'', ''port'', ''uuid''}"
  by (induction ts rule: token_names.induct) auto

lemma token_names_mem:
  "''server'' \<in> set (token_names ts) \<longleftrightarrow> Server \<in> set ts"
  "''port'' \<in> set (token_names ts) \<longleftrightarrow> Port \<in> set ts"
  "''uuid'' \<in> set (token_names ts) \<longleftrightarrow> Uuid \<in> set ts"
  by (induction ts rule: token_names.induct) auto

lemma sre_parse_tokens:
  "tokens_ok ts \<Longrightarrow> set (token_names ts) \<inter> set seen = {} \<Longrightarrow>
   sre_parse seen (concat (map (stage 3) ts)) = Inr (map item_of ts)"
proof (induction ts arbitrary: seen)
  case Nil
  show ?case by simp
next
  case (Cons t ts)
  show ?case
  proof (cases t)
    case (Chr c)
    with Cons.prems have c: "\<not> special c" and ok: "tokens_ok ts"
      and seen: "set (token_names ts) \<inter> set seen = {}" by auto
    from c have "c \<noteq> CHR ''$''" "c \<noteq> CHR ''(''" "c \<noteq> CHR ''.''" "c \<noteq> backslash"
      by (auto simp: special_def)
    with Cons.IH [OF ok seen] c Chr show ?thesis by simp
  next
    case Dollar
    with Cons.prems have ok: "tokens_ok ts"
      and seen: "set (token_names ts) \<inter> set seen = {}" by auto
    from Cons.IH [OF ok seen] Dollar show ?thesis by simp
  next
    case Server
    with Cons.prems have ok: "tokens_ok ts" and new: "''server'' \<notin> set seen"
      and seen: "set (token_names ts) \<inter> set (''server'' # seen) = {}"
      by (auto simp: token_names_mem)
    from Cons.IH [OF ok seen] parse_group_server [of "concat (map (stage 3) ts)"] new Server
    show ?thesis by simp
  next
    case Port
    with Cons.prems have ok: "tokens_ok ts" and new: "''port'' \<notin> set seen"
      and seen: "set (token_names ts) \<inter> set (''port'' # seen) = {}"
      by (auto simp: token_names_mem)
    from Cons.IH [OF ok seen] parse_group_port [of "concat (map (stage 3) ts)"] new Port
    show ?thesis by simp
  next
    case Uuid
    with Cons.prems have ok: "tokens_ok ts" and new: "''uuid'' \<notin> set seen"
      and seen: "set (token_names ts) \<inter> set (''uuid'' # seen) = {}"
      by (auto simp: token_names_mem)
    from Cons.IH [OF ok seen] parse_group_uuid [of "concat (map (stage 3) ts)"] new Uuid
    show ?thesis by simp
  qed
qed

lemma sre_compile_tokens:
  "tokens_ok ts \<Longrightarrow> sre_compile (make_pattern (template_source ts)) = Inr (map item_of ts)"
  by (simp add: sre_compile_def make_pattern_tokens sre_parse_tokens)

subsection \<open>Captured values are parts of the path\<close>

lemma occurs_iff: "occurs sub s \<longleftrightarrow> (\<exists>i \<le> length s. startswith (drop i s) sub)"
  by (auto simp: occurs_def list_ex_iff less_Suc_eq_le simp del: upt_Suc)

lemma occurs_drop: "occurs sub (drop k s) \<Longrightarrow> occurs sub s"
proof -
  assume "occurs sub (drop k s)"
  then obtain i where i: "i \<le> length (drop k s)" "startswith (drop i (drop k s)) sub"
    by (auto simp: occurs_iff)
  show ?thesis
  proof (cases "k \<le> length s")
    case True
    with i have "i + k \<le> length s \<and> startswith (drop (i + k) s) sub"
      by (simp add: add.commute)
    then show ?thesis unfolding occurs_iff by blast
  next
    case False
    with i have "length s \<le> length s \<and> startswith (drop (length s) s) sub"
      by simp
    then show ?thesis unfolding occurs_iff by blast
  qed
qed

lemma occurs_tl: "occurs sub s \<Longrightarrow> occurs sub (c # s)"
  using occurs_drop [of sub 1 "c # s"] by simp

lemma fits_occurs:
  "fits its s vals \<Longrightarrow> v \<in> set vals \<Longrightarrow> occurs v s"
proof (induction its s vals rule: fits.induct)
  case (1 s vals)
  then show ?case by simp
next
  case (2 a its s vals)
  then show ?case by (cases s) (auto intro: occurs_tl)
next
  case (3 its s vals)
  then show ?case by auto
next
  case (4 n a m its s vals)
  from 4(2) obtain w ws where vals: "vals = w # ws" and sw: "startswith s w"
    and rest: "fits its (drop (length w) s) ws"
    by (cases vals) auto
  show ?case
  proof (cases "v = w")
    case True
    with sw have "0 \<le> length s \<and> startswith (drop 0 s) v" by simp
    then show ?thesis unfolding occurs_iff by blast
  next
    case False
    with 4(3) vals have "v \<in> set ws" by simp
    from 4(1) [OF vals rest this] show ?thesis by (rule occurs_drop)
  qed
qed

lemma search_from_sound:
  assumes "search_from its s = Some g"
  shows "\<exists>i vals. i \<le> length s \<and> fits its (drop i s) vals \<and>
           g = zip (group_names its) vals \<and> length vals = length (group_names its) \<and>
           match_items its (drop i s) [] = Some g \<and>
           (\<forall>j < i. match_items its (drop j s) [] = None)"
proof -
  from assms obtain i where i: "i \<le> length s" "match_items its (drop i s) [] = Some g"
    "\<forall>j < i. match_items its (drop j s) [] = None"
    unfolding search_from_iff by blast
  from match_items_sound [OF i(2)] obtain vals where
    "fits its (drop i s) vals" "g = zip (group_names its) vals"
    "length vals = length (group_names its)" by auto
  with i show ?thesis by blast
qed

lemma search_from_occurs:
  assumes "search_from its s = Some g" "(n, v) \<in> set g"
  shows "occurs v s"
proof -
  from search_from_sound [OF assms(1)] obtain i vals where
    f: "fits its (drop i s) vals" and g: "g = zip (group_names its) vals" by blast
  from assms(2) g have "v \<in> set vals" by (auto dest: set_zip_rightD)
  from fits_occurs [OF f this] show ?thesis by (rule occurs_drop)
qed

lemma re_search_Some:
  "re_search pat s = Inr (Some g) \<longleftrightarrow> (\<exists>its. sre_compile pat = Inr its \<and> search_from its s = Some g)"
  by (auto simp: re_search_def split: sum.splits)

lemma fill_no_token:
  assumes "list_all piece_ok ps" "list_all (captured kw) ps"
    and "\<forall>v \<in> snd ` set kw. CHR ''{'' \<notin> set v"
  shows "\<not> occurs (CHR ''{'' # w) (fill kw ps)"
  using fill_no_brace [OF assms] occurs_set by blast


subsection \<open>The translated URL\<close>

text \<open>
  C1, as the code has it: when the pattern derived from the source template matches the
  path, and the target template is made of text without braces and of fields \<open>{name}\<close>
  whose names were all captured, \<open>get_juju_api_url\<close> returns the target template with
  every field replaced by the value captured for it. Every captured value occurs in the
  path. The values are copied as they are, so the result holds none of the placeholder
  tokens \<open>{server}\<close>, \<open>{port}\<close>, \<open>{uuid}\<close> provided no captured value holds a \<open>{\<close>.
\<close>

theorem url_is_filled_template:
  assumes "re_search (make_pattern source_template) p = Inr (Some g)"
    and "list_all piece_ok ps" and "list_all (captured g) ps"
  shows "get_juju_api_url p source_template (template_text ps) dflt = Inr (fill g ps) \<and>
         (\<forall>v \<in> snd ` set g. occurs v p) \<and>
         ((\<forall>v \<in> snd ` set g. CHR ''{'' \<notin> set v) \<longrightarrow>
            \<not> occurs ''{server}'' (fill g ps) \<and> \<not> occurs ''{port}'' (fill g ps) \<and>
            \<not> occurs ''{uuid}'' (fill g ps))"
proof (intro conjI)
  show "get_juju_api_url p source_template (template_text ps) dflt = Inr (fill g ps)"
    using assms(1) str_format_pieces [OF assms(2,3)] by (simp add: get_juju_api_url_def)
  from assms(1) obtain its where "search_from its p = Some g"
    unfolding re_search_Some by blast
  then show "\<forall>v \<in> snd ` set g. occurs v p"
    by (auto dest: search_from_occurs)
  show "(\<forall>v \<in> snd ` set g. CHR ''{'' \<notin> set v) \<longrightarrow>
            \<not> occurs ''{server}'' (fill g ps) \<and> \<not> occurs ''{port}'' (fill g ps) \<and>
            \<not> occurs ''{uuid}'' (fill g ps)"
    using fill_no_token [OF assms(2,3)] by simp
qed

theorem url_is_filled_template_witness:
  "re_search (make_pattern ''/api/$server/$port/$uuid'') ''/api/10.0.0.5/17070/abcd-1234'' =
     Inr (Some [(''server'', ''10.0.0.5''), (''port'', ''17070''), (''uuid'', ''abcd-1234'')]) \<and>
   get_juju_api_url ''/api/10.0.0.5/17070/abcd-1234'' ''/api/$server/$port/$uuid''
     ''wss://{server}:{port}/environment/{uuid}/api'' ''D'' =
     Inr ''wss://10.0.0.5:17070/environment/abcd-1234/api'' \<and>
   \<not> occurs ''{server}'' ''wss://10.0.0.5:17070/environment/abcd-1234/api'' \<and>
   \<not> occurs ''{port}'' ''wss://10.0.0.5:17070/environment/abcd-1234/api'' \<and>
   \<not> occurs ''{uuid}'' ''wss://10.0.0.5:17070/environment/abcd-1234/api''"
proof -
  let ?g = "[(''server'', ''10.0.0.5''), (''port'', ''17070''), (''uuid'', ''abcd-1234'')]"
  let ?ps = "[Text ''wss://'', Field ''server'', Text '':'', Field ''port'',
              Text ''/environment/'', Field ''uuid'', Text ''/api'']"
  have h: "re_search (make_pattern ''/api/$server/$port/$uuid'') ''/api/10.0.0.5/17070/abcd-1234'' =
     Inr (Some ?g)"
    by code_simp
  have ok: "list_all piece_ok ?ps"
    by (simp add: is_digit_def)
  have cap: "list_all (captured ?g) ?ps"
    by simp
  have br: "\<forall>v \<in> snd ` set ?g. CHR ''{'' \<notin> set v"
    by simp
  have t: "template_text ?ps = ''wss://{server}:{port}/environment/{uuid}/api''"
    by (simp add: template_text_def)
  have f: "fill ?g ?ps = ''wss://10.0.0.5:17070/environment/abcd-1234/api''"
    by (simp add: fill_def)
  from url_is_filled_template [OF h ok cap, of "''D''"] br h show ?thesis
    unfolding t f by blast
qed

text \<open>
  C1 as stated fails: a placeholder token that comes with the path is in the returned
  URL. The path \<open>/api/{uuid}/17070/x\<close> matches the pattern, and the result holds the
  token \<open>{uuid}\<close>.
\<close>

theorem placeholder_in_output_counterexample:
  "re_search (make_pattern ''/api/$server/$port/$uuid'') ''/api/{uuid}/17070/x'' =
     Inr (Some [(''server'', ''{uuid}''), (''port'', ''17070''), (''uuid'', ''x'')]) \<and>
   get_juju_api_url ''/api/{uuid}/17070/x'' ''/api/$server/$port/$uuid''
     ''wss://{server}:{port}/environment/{uuid}/api'' ''D'' =
     Inr ''wss://{uuid}:17070/environment/x/api'' \<and>
   occurs ''{uuid}'' ''wss://{uuid}:17070/environment/x/api''"
  by code_simp

text \<open>
  C5: when the pattern matched and the target template has a field whose name was not
  captured, \<open>get_juju_api_url\<close> raises \<open>KeyError\<close> for such a name: no URL is returned.
\<close>

theorem uncaptured_placeholder_raises:
  assumes "re_search (make_pattern source_template) p = Inr (Some g)"
    and "list_all piece_ok ps" and "Field n \<in> set ps" and "map_of g n = None"
  shows "\<exists>m. get_juju_api_url p source_template (template_text ps) dflt = Inl (KeyError m) \<and>
             Field m \<in> set ps \<and> map_of g m = None"
proof -
  from assms(3,4) have "\<not> list_all (captured g) ps"
    by (auto simp: list_all_iff intro!: bexI [of _ "Field n"])
  from str_format_missing [OF assms(2) this] assms(1) show ?thesis
    by (simp add: get_juju_api_url_def)
qed

theorem uncaptured_placeholder_raises_witness:
  "re_search (make_pattern ''/api/$server/$port'') ''/api/10.0.0.5/17070'' =
     Inr (Some [(''server'', ''10.0.0.5''), (''port'', ''17070'')]) \<and>
   get_juju_api_url ''/api/10.0.0.5/17070'' ''/api/$server/$port''
     ''wss://{server}:{port}/environment/{uuid}/api'' ''D'' = Inl (KeyError ''uuid'')"
proof -
  let ?g = "[(''server'', ''10.0.0.5''), (''port'', ''17070'')]"
  let ?ps = "[Text ''wss://'', Field ''server'', Text '':'', Field ''port'',
              Text ''/environment/'', Field ''uuid'', Text ''/api'']"
  have h: "re_search (make_pattern ''/api/$server/$port'') ''/api/10.0.0.5/17070'' = Inr (Some ?g)"
    by code_simp
  have ok: "list_all piece_ok ?ps"
    by (simp add: is_digit_def)
  have m: "Field ''uuid'' \<in> set ?ps"
    by simp
  have u: "map_of ?g ''uuid'' = None"
    by simp
  have t: "template_text ?ps = ''wss://{server}:{port}/environment/{uuid}/api''"
    by (simp add: template_text_def)
  from uncaptured_placeholder_raises [OF h ok m u, of "''D''"]
  obtain k where k: "get_juju_api_url ''/api/10.0.0.5/17070'' ''/api/$server/$port''
     ''wss://{server}:{port}/environment/{uuid}/api'' ''D'' = Inl (KeyError k)"
    and f: "Field k \<in> set ?ps" and n: "map_of ?g k = None"
    unfolding t by blast
  from f have "k = ''server'' \<or> k = ''port'' \<or> k = ''uuid''"
    by simp
  with n have "k = ''uuid''"
    by auto
  with k h show ?thesis by simp
qed

subsection \<open>Search, not anchored match\<close>

lemma captured_zip:
  assumes "length ws = length ns" and "\<forall>n. Field n \<in> set ps \<longrightarrow> n \<in> set ns"
  shows "list_all (captured (zip ns ws)) ps"
proof -
  have "captured (zip ns ws) x" if "x \<in> set ps" for x
  proof (cases x)
    case (Text s)
    then show ?thesis by simp
  next
    case (Field n)
    with that assms(2) have "n \<in> set ns" by simp
    then have "map_of (zip ns ws) n \<noteq> None"
      using assms(1) by (simp add: map_of_zip_is_None)
    with Field show ?thesis by simp
  qed
  then show ?thesis by (simp add: list_all_iff)
qed

text \<open>
  C6, as the code has it: when the derived pattern is a valid pattern and some part of
  the path, from any offset, is matched by it, the search succeeds. The groups are
  those of the leftmost offset that has a match, which is the given offset or one
  before it, and there of the split that the matcher tries first. For a target template
  made of text without braces and of fields that name groups of the pattern, the
  function returns the target template filled with these groups.
\<close>

theorem search_not_anchored:
  assumes "sre_compile (make_pattern source_template) = Inr its"
    and "p = before @ rest" and "fits its rest vals"
    and "list_all piece_ok ps"
    and "\<forall>n. Field n \<in> set ps \<longrightarrow> n \<in> set (group_names its)"
  shows "\<exists>i ws. i \<le> length before \<and> fits its (drop i p) ws \<and>
           (\<forall>j < i. \<forall>us. \<not> fits its (drop j p) us) \<and>
           (\<forall>us. fits its (drop i p) us \<longrightarrow> tried_first ws us) \<and>
           re_search (make_pattern source_template) p = Inr (Some (zip (group_names its) ws)) \<and>
           get_juju_api_url p source_template (template_text ps) dflt =
             Inr (fill (zip (group_names its) ws) ps)"
proof -
  have "fits its (drop (length before) p) vals"
    using assms(2,3) by simp
  then have here: "match_items its (drop (length before) p) [] \<noteq> None"
    by (rule match_items_complete)
  have lb: "length before \<le> length p"
    using assms(2) by simp
  have "search_from its p \<noteq> None"
  proof
    assume "search_from its p = None"
    then have "\<forall>i \<le> length p. match_items its (drop i p) [] = None"
      by (simp only: search_from_None)
    then have "match_items its (drop (length before) p) [] = None"
      using lb by (elim allE [of _ "length before"]) simp
    with here show False by simp
  qed
  then obtain g where g: "search_from its p = Some g" by blast
  from search_from_sound [OF g] obtain i ws where
    i: "i \<le> length p" "fits its (drop i p) ws" "g = zip (group_names its) ws"
    "\<forall>j < i. match_items its (drop j p) [] = None"
    and l: "length ws = length (group_names its)"
    and m: "match_items its (drop i p) [] = Some g"
    by blast
  have le: "i \<le> length before"
  proof (rule ccontr)
    assume "\<not> i \<le> length before"
    then have "length before < i" by simp
    with i(4) have "match_items its (drop (length before) p) [] = None" by simp
    with here show False by simp
  qed
  have first: "\<forall>j < i. \<forall>us. \<not> fits its (drop j p) us"
  proof (intro allI impI notI)
    fix j us
    assume "j < i" and "fits its (drop j p) us"
    from this(2) have "match_items its (drop j p) [] \<noteq> None"
      by (rule match_items_complete)
    moreover from i(4) \<open>j < i\<close> have "match_items its (drop j p) [] = None" by simp
    ultimately show False by simp
  qed
  have greedy: "\<forall>us. fits its (drop i p) us \<longrightarrow> tried_first ws us"
  proof (intro allI impI)
    fix us
    assume u: "fits its (drop i p) us"
    have "match_items its (drop i p) [] = Some ([] @ zip (group_names its) ws)"
      using m i(3) by simp
    from this l u show "tried_first ws us"
      by (rule match_items_greedy)
  qed
  have rs: "re_search (make_pattern source_template) p = Inr (Some (zip (group_names its) ws))"
    using assms(1) g i(3) by (simp add: re_search_def)
  have "list_all (captured (zip (group_names its) ws)) ps"
    using l assms(5) by (rule captured_zip)
  from str_format_pieces [OF assms(4) this] rs
  have url: "get_juju_api_url p source_template (template_text ps) dflt =
             Inr (fill (zip (group_names its) ws) ps)"
    by (simp add: get_juju_api_url_def)
  show ?thesis
    by (intro exI [of _ i] exI [of _ ws] conjI le i(2) first greedy rs url)
qed

theorem search_not_anchored_witness:
  "sre_compile (make_pattern ''/api/$server/$port/$uuid'') =
     Inr [One (AChar CHR ''/''), One (AChar CHR ''a''), One (AChar CHR ''p''),
          One (AChar CHR ''i''), One (AChar CHR ''/''), Group ''server'' AAny 0,
          One (AChar CHR ''/''), Group ''port'' ADigit 1, One (AChar CHR ''/''),
          Group ''uuid'' AAny 0] \<and>
   ''/ws/api/1.2.3.4/17070/uuid'' = ''/ws'' @ ''/api/1.2.3.4/17070/uuid'' \<and>
   fits [One (AChar CHR ''/''), One (AChar CHR ''a''), One (AChar CHR ''p''),
          One (AChar CHR ''i''), One (AChar CHR ''/''), Group ''server'' AAny 0,
          One (AChar CHR ''/''), Group ''port'' ADigit 1, One (AChar CHR ''/''),
          Group ''uuid'' AAny 0] ''/api/1.2.3.4/17070/uuid'' [''1.2.3.4'', ''17070'', ''uuid''] \<and>
   get_juju_api_url ''/ws/api/1.2.3.4/17070/uuid'' ''/api/$server/$port/$uuid''
     ''wss://{server}:{port}/environment/{uuid}/api'' ''D'' =
     Inr ''wss://1.2.3.4:17070/environment/uuid/api'' \<and>
   (\<exists>i ws. i \<le> length ''/ws'' \<and>
      get_juju_api_url ''/ws/api/1.2.3.4/17070/uuid'' ''/api/$server/$port/$uuid''
        ''wss://{server}:{port}/environment/{uuid}/api'' ''D'' =
      Inr (fill (zip [''server'', ''port'', ''uuid''] ws)
             [Text ''wss://'', Field ''server'', Text '':'', Field ''port'',
              Text ''/environment/'', Field ''uuid'', Text ''/api'']))"
proof -
  let ?its = "[One (AChar CHR ''/''), One (AChar CHR ''a''), One (AChar CHR ''p''),
          One (AChar CHR ''i''), One (AChar CHR ''/''), Group ''server'' AAny 0,
          One (AChar CHR ''/''), Group ''port'' ADigit 1, One (AChar CHR ''/''),
          Group ''uuid'' AAny 0]"
  let ?ps = "[Text ''wss://'', Field ''server'', Text '':'', Field ''port'',
              Text ''/environment/'', Field ''uuid'', Text ''/api'']"
  have c: "sre_compile (make_pattern ''/api/$server/$port/$uuid'') = Inr ?its"
    by code_simp
  have e: "''/ws/api/1.2.3.4/17070/uuid'' = ''/ws'' @ ''/api/1.2.3.4/17070/uuid''"
    by simp
  have f: "fits ?its ''/api/1.2.3.4/17070/uuid'' [''1.2.3.4'', ''17070'', ''uuid'']"
    by code_simp
  have ok: "list_all piece_ok ?ps"
    by (simp add: is_digit_def)
  have names: "\<forall>n. Field n \<in> set ?ps \<longrightarrow> n \<in> set (group_names ?its)"
    by auto
  have t: "template_text ?ps = ''wss://{server}:{port}/environment/{uuid}/api''"
    by (simp add: template_text_def)
  have v: "get_juju_api_url ''/ws/api/1.2.3.4/17070/uuid'' ''/api/$server/$port/$uuid''
     ''wss://{server}:{port}/environment/{uuid}/api'' ''D'' =
     Inr ''wss://1.2.3.4:17070/environment/uuid/api''"
    by code_simp
  from search_not_anchored [OF c e f ok names, of "''D''"]
  obtain i ws where "i \<le> length ''/ws''"
    "get_juju_api_url ''/ws/api/1.2.3.4/17070/uuid'' ''/api/$server/$port/$uuid''
        ''wss://{server}:{port}/environment/{uuid}/api'' ''D'' =
      Inr (fill (zip (group_names ?its) ws) ?ps)"
    unfolding t by auto
  then have "\<exists>i ws. i \<le> length ''/ws'' \<and>
      get_juju_api_url ''/ws/api/1.2.3.4/17070/uuid'' ''/api/$server/$port/$uuid''
        ''wss://{server}:{port}/environment/{uuid}/api'' ''D'' =
      Inr (fill (zip [''server'', ''port'', ''uuid''] ws) ?ps)"
    by (intro exI [of _ i] exI [of _ ws]) simp
  with c e f v show ?thesis
    by (intro conjI)
qed

text \<open>
  C6 as stated fails: the captured values need not come from the given matching
  substring. The part \<open>/api/b/2/y\<close> of the path \<open>/api/a/1/x/api/b/2/y\<close> is matched with
  the server \<open>b\<close>, and the search captures the server \<open>a/1/x/api/b\<close>, which does not
  occur in that part.
\<close>

theorem captures_not_from_substring_counterexample:
  "sre_compile (make_pattern ''/api/$server/$port/$uuid'') =
     Inr [One (AChar CHR ''/''), One (AChar CHR ''a''), One (AChar CHR ''p''),
          One (AChar CHR ''i''), One (AChar CHR ''/''), Group ''server'' AAny 0,
          One (AChar CHR ''/''), Group ''port'' ADigit 1, One (AChar CHR ''/''),
          Group ''uuid'' AAny 0] \<and>
   ''/api/a/1/x/api/b/2/y'' = ''/api/a/1/x'' @ ''/api/b/2/y'' \<and>
   fits [One (AChar CHR ''/''), One (AChar CHR ''a''), One (AChar CHR ''p''),
          One (AChar CHR ''i''), One (AChar CHR ''/''), Group ''server'' AAny 0,
          One (AChar CHR ''/''), Group ''port'' ADigit 1, One (AChar CHR ''/''),
          Group ''uuid'' AAny 0] ''/api/b/2/y'' [''b'', ''2'', ''y''] \<and>
   re_search (make_pattern ''/api/$server/$port/$uuid'') ''/api/a/1/x/api/b/2/y'' =
     Inr (Some [(''server'', ''a/1/x/api/b''), (''port'', ''2''), (''uuid'', ''y'')]) \<and>
   \<not> occurs ''a/1/x/api/b'' ''/api/b/2/y'' \<and>
   get_juju_api_url ''/api/a/1/x/api/b/2/y'' ''/api/$server/$port/$uuid''
     ''wss://{server}:{port}/environment/{uuid}/api'' ''D'' =
     Inr ''wss://a/1/x/api/b:2/environment/y/api''"
  by code_simp

subsection \<open>The placeholders in the pattern\<close>

lemma group_names_tokens: "group_names (map item_of ts) = token_names ts"
  by (induction ts rule: token_names.induct) auto


lemma std_tokens:
  "tokens_ok [Chr CHR ''/'', Chr CHR ''a'', Chr CHR ''p'', Chr CHR ''i'',
              Chr CHR ''/'', Server, Chr CHR ''/'', Port, Chr CHR ''/'', Uuid]"
  "template_source [Chr CHR ''/'', Chr CHR ''a'', Chr CHR ''p'', Chr CHR ''i'',
              Chr CHR ''/'', Server, Chr CHR ''/'', Port, Chr CHR ''/'', Uuid] =
   ''/api/$server/$port/$uuid''"
  by (simp_all add: special_def backslash_def template_source_def)


lemma fits_length: "fits its s vals \<Longrightarrow> length vals = length (group_names its)"
proof (induction its s vals rule: fits.induct)
  case (1 s vals)
  then show ?case by simp
next
  case (2 a its s vals)
  then show ?case by (cases s) auto
next
  case (3 its s vals)
  then show ?case by simp
next
  case (4 n a m its s vals)
  then show ?case by (cases vals) auto
qed

lemma tried_first_length:
  "tried_first vals ws \<Longrightarrow> length ws = length vals \<Longrightarrow> first_length ws \<le> first_length vals"
  by (cases vals; cases ws) auto

text \<open>
  C3, as the code has it: for a template made of ordinary characters, \<open>$\<close> and the
  placeholders, the compiled pattern keeps every character as a literal in its place
  and has, for \<open>$server\<close> and \<open>$uuid\<close>, a group around a greedy repetition of any
  character but a newline (\<open>.*\<close>), and for \<open>$port\<close> a group around one or more digits
  (\<open>\d+\<close>). The groups of a successful search are those of a split of the path at the
  leftmost offset that has one, and among the splits at that offset of the one that the
  matcher tries first: no split there has a longer value for the first group, so a
  server capture that comes first is the longest possible one.
\<close>

theorem placeholders_are_greedy:
  assumes "tokens_ok ts"
  shows "sre_compile (make_pattern (template_source ts)) = Inr (map item_of ts) \<and>
         (\<forall>p g. re_search (make_pattern (template_source ts)) p = Inr (Some g) \<longrightarrow>
            (\<exists>i vals. i \<le> length p \<and> g = zip (token_names ts) vals \<and>
               fits (map item_of ts) (drop i p) vals \<and>
               (\<forall>j < i. \<forall>ws. \<not> fits (map item_of ts) (drop j p) ws) \<and>
               (\<forall>ws. fits (map item_of ts) (drop i p) ws \<longrightarrow>
                  tried_first vals ws \<and> first_length ws \<le> first_length vals)))"
proof (intro conjI allI impI)
  let ?its = "map item_of ts"
  show c: "sre_compile (make_pattern (template_source ts)) = Inr ?its"
    using assms by (rule sre_compile_tokens)
  fix p g
  assume "re_search (make_pattern (template_source ts)) p = Inr (Some g)"
  with c have "search_from ?its p = Some g"
    by (simp add: re_search_def)
  from search_from_sound [OF this] obtain i vals where
    i: "i \<le> length p" and f: "fits ?its (drop i p) vals"
    and g: "g = zip (group_names ?its) vals" and l: "length vals = length (group_names ?its)"
    and m: "match_items ?its (drop i p) [] = Some g"
    and n: "\<forall>j < i. match_items ?its (drop j p) [] = None"
    by blast
  have first: "\<forall>j < i. \<forall>ws. \<not> fits ?its (drop j p) ws"
  proof (intro allI impI notI)
    fix j ws
    assume "j < i" and "fits ?its (drop j p) ws"
    from this(2) have "match_items ?its (drop j p) [] \<noteq> None"
      by (rule match_items_complete)
    moreover from n \<open>j < i\<close> have "match_items ?its (drop j p) [] = None" by simp
    ultimately show False by simp
  qed
  have greedy: "\<forall>ws. fits ?its (drop i p) ws \<longrightarrow>
                  tried_first vals ws \<and> first_length ws \<le> first_length vals"
  proof (intro allI impI)
    fix ws
    assume w: "fits ?its (drop i p) ws"
    have "match_items ?its (drop i p) [] = Some ([] @ zip (group_names ?its) vals)"
      using m g by simp
    from this l w have t: "tried_first vals ws"
      by (rule match_items_greedy)
    have "length ws = length vals"
      using fits_length [OF w] l by simp
    with t have "first_length ws \<le> first_length vals"
      by (rule tried_first_length)
    with t show "tried_first vals ws \<and> first_length ws \<le> first_length vals" ..
  qed
  have g': "g = zip (token_names ts) vals"
    using g by (simp add: group_names_tokens)
  show "\<exists>i vals. i \<le> length p \<and> g = zip (token_names ts) vals \<and>
               fits ?its (drop i p) vals \<and>
               (\<forall>j < i. \<forall>ws. \<not> fits ?its (drop j p) ws) \<and>
               (\<forall>ws. fits ?its (drop i p) ws \<longrightarrow>
                  tried_first vals ws \<and> first_length ws \<le> first_length vals)"
    by (intro exI [of _ i] exI [of _ vals] conjI i g' f first greedy)
qed

theorem placeholders_are_greedy_witness:
  "tokens_ok [Chr CHR ''/'', Chr CHR ''a'', Chr CHR ''p'', Chr CHR ''i'',
              Chr CHR ''/'', Server, Chr CHR ''/'', Port, Chr CHR ''/'', Uuid] \<and>
   sre_compile (make_pattern ''/api/$server/$port/$uuid'') =
     Inr [One (AChar CHR ''/''), One (AChar CHR ''a''), One (AChar CHR ''p''),
          One (AChar CHR ''i''), One (AChar CHR ''/''), Group ''server'' AAny 0,
          One (AChar CHR ''/''), Group ''port'' ADigit 1, One (AChar CHR ''/''),
          Group ''uuid'' AAny 0] \<and>
   re_search (make_pattern ''/api/$server/$port/$uuid'') ''/api/a/1/b/2/c'' =
     Inr (Some [(''server'', ''a/1/b''), (''port'', ''2''), (''uuid'', ''c'')]) \<and>
   (\<exists>i vals. i \<le> length ''/api/a/1/b/2/c'' \<and>
      [(''server'', ''a/1/b''), (''port'', ''2''), (''uuid'', ''c'')] =
        zip [''server'', ''port'', ''uuid''] vals \<and>
      (\<forall>ws. fits [One (AChar CHR ''/''), One (AChar CHR ''a''), One (AChar CHR ''p''),
          One (AChar CHR ''i''), One (AChar CHR ''/''), Group ''server'' AAny 0,
          One (AChar CHR ''/''), Group ''port'' ADigit 1, One (AChar CHR ''/''),
          Group ''uuid'' AAny 0] (drop i ''/api/a/1/b/2/c'') ws \<longrightarrow>
            first_length ws \<le> length ''a/1/b''))"
proof -
  let ?ts = "[Chr CHR ''/'', Chr CHR ''a'', Chr CHR ''p'', Chr CHR ''i'',
              Chr CHR ''/'', Server, Chr CHR ''/'', Port, Chr CHR ''/'', Uuid]"
  let ?g = "[(''server'', ''a/1/b''), (''port'', ''2''), (''uuid'', ''c'')]"
  have h: "re_search (make_pattern ''/api/$server/$port/$uuid'') ''/api/a/1/b/2/c'' = Inr (Some ?g)"
    by code_simp
  note t = placeholders_are_greedy [OF std_tokens(1), unfolded std_tokens(2)]
  have c: "sre_compile (make_pattern ''/api/$server/$port/$uuid'') =
     Inr [One (AChar CHR ''/''), One (AChar CHR ''a''), One (AChar CHR ''p''),
          One (AChar CHR ''i''), One (AChar CHR ''/''), Group ''server'' AAny 0,
          One (AChar CHR ''/''), Group ''port'' ADigit 1, One (AChar CHR ''/''),
          Group ''uuid'' AAny 0]"
    using t [THEN conjunct1] by simp
  from t [THEN conjunct2, rule_format, OF h] obtain i vals where
    "i \<le> length ''/api/a/1/b/2/c''" "?g = zip (token_names ?ts) vals"
    "\<forall>ws. fits (map item_of ?ts) (drop i ''/api/a/1/b/2/c'') ws \<longrightarrow>
       tried_first vals ws \<and> first_length ws \<le> first_length vals"
    by blast
  moreover from this(2) have "first_length vals = length ''a/1/b''"
    by (cases vals) auto
  ultimately have "\<exists>i vals. i \<le> length ''/api/a/1/b/2/c'' \<and>
      ?g = zip [''server'', ''port'', ''uuid''] vals \<and>
      (\<forall>ws. fits [One (AChar CHR ''/''), One (AChar CHR ''a''), One (AChar CHR ''p''),
          One (AChar CHR ''i''), One (AChar CHR ''/''), Group ''server'' AAny 0,
          One (AChar CHR ''/''), Group ''port'' ADigit 1, One (AChar CHR ''/''),
          Group ''uuid'' AAny 0] (drop i ''/api/a/1/b/2/c'') ws \<longrightarrow>
            first_length ws \<le> length ''a/1/b'')"
    by (intro exI [of _ i] exI [of _ vals]) simp
  with std_tokens(1) c h show ?thesis
    by (intro conjI)
qed


text \<open>
  C3 as stated fails: the server capture is not the shortest one. The path
  \<open>/api/a/1/b/2/c\<close> splits with the server \<open>a\<close>, and the search captures \<open>a/1/b\<close>.
\<close>

theorem server_capture_not_shortest_counterexample:
  "sre_compile (make_pattern ''/api/$server/$port/$uuid'') =
     Inr [One (AChar CHR ''/''), One (AChar CHR ''a''), One (AChar CHR ''p''),
          One (AChar CHR ''i''), One (AChar CHR ''/''), Group ''server'' AAny 0,
          One (AChar CHR ''/''), Group ''port'' ADigit 1, One (AChar CHR ''/''),
          Group ''uuid'' AAny 0] \<and>
   fits [One (AChar CHR ''/''), One (AChar CHR ''a''), One (AChar CHR ''p''),
         One (AChar CHR ''i''), One (AChar CHR ''/''), Group ''server'' AAny 0,
         One (AChar CHR ''/''), Group ''port'' ADigit 1, One (AChar CHR ''/''),
         Group ''uuid'' AAny 0] ''/api/a/1/b/2/c'' [''a'', ''1'', ''b/2/c''] \<and>
   re_search (make_pattern ''/api/$server/$port/$uuid'') ''/api/a/1/b/2/c'' =
     Inr (Some [(''server'', ''a/1/b''), (''port'', ''2''), (''uuid'', ''c'')]) \<and>
   length ''a'' < length ''a/1/b'' \<and>
   get_juju_api_url ''/api/a/1/b/2/c'' ''/api/$server/$port/$uuid''
     ''wss://{server}:{port}/environment/{uuid}/api'' ''D'' =
     Inr ''wss://a/1/b:2/environment/c/api''"
  by code_simp

subsection \<open>The port\<close>

text \<open>The value of the group \<open>port\<close> in a split by the pattern of a template.\<close>

lemma fits_port_digits:
  "fits (map item_of ts) s vals \<Longrightarrow> map_of (zip (token_names ts) vals) ''port'' = Some v \<Longrightarrow>
   v \<noteq> [] \<and> list_all is_digit v"
proof (induction ts arbitrary: s vals)
  case Nil
  then show ?case by simp
next
  case (Cons t ts)
  show ?case
  proof (cases t)
    case (Chr c)
    with Cons.prems obtain s' where "fits (map item_of ts) s' vals"
      by (cases s) auto
    from Cons.IH [OF this] Cons.prems(2) Chr show ?thesis by simp
  next
    case Dollar
    with Cons.prems have "fits (map item_of ts) s vals" by simp
    from Cons.IH [OF this] Cons.prems(2) Dollar show ?thesis by simp
  next
    case Server
    with Cons.prems obtain w ws where w: "vals = w # ws"
      "fits (map item_of ts) (drop (length w) s) ws"
      by (cases vals) auto
    from Cons.IH [OF w(2)] Cons.prems(2) Server w(1) show ?thesis by simp
  next
    case Port
    with Cons.prems obtain w ws where w: "vals = w # ws"
      "list_all (atom_ok ADigit) w" "1 \<le> length w"
      by (cases vals) auto
    from Cons.prems(2) Port w(1) have "v = w" by simp
    with w(2,3) show ?thesis by (auto simp: list_all_iff)
  next
    case Uuid
    with Cons.prems obtain w ws where w: "vals = w # ws"
      "fits (map item_of ts) (drop (length w) s) ws"
      by (cases vals) auto
    from Cons.IH [OF w(2)] Cons.prems(2) Uuid w(1) show ?thesis by simp
  qed
qed

lemma port_capture_digits:
  assumes "tokens_ok ts"
    and "re_search (make_pattern (template_source ts)) p = Inr (Some g)"
    and "map_of g ''port'' = Some v"
  shows "v \<noteq> [] \<and> list_all is_digit v"
proof -
  from assms(2) sre_compile_tokens [OF assms(1)]
  have "search_from (map item_of ts) p = Some g"
    by (simp add: re_search_def)
  from search_from_sound [OF this] obtain i vals where
    "fits (map item_of ts) (drop i p) vals" "g = zip (group_names (map item_of ts)) vals"
    by blast
  with assms(3) show ?thesis
    using fits_port_digits [of ts "drop i p" vals v] by (simp add: group_names_tokens)
qed

text \<open>Unfolding a split along the items of the pattern.\<close>

lemma fits_One:
  "fits (One (AChar c) # its) r vals \<longleftrightarrow> (\<exists>r'. r = c # r' \<and> fits its r' vals)"
  by (cases r) auto

lemma fits_Group:
  "fits (Group n a m # its) r vals \<longleftrightarrow>
   (\<exists>v vs r'. vals = v # vs \<and> r = v @ r' \<and> list_all (atom_ok a) v \<and> m \<le> length v \<and>
       fits its r' vs)"
proof
  assume "fits (Group n a m # its) r vals"
  then obtain v vs where v: "vals = v # vs" "startswith r v" "list_all (atom_ok a) v"
    "m \<le> length v" "fits its (drop (length v) r) vs"
    by (cases vals) auto
  from v(2) have "r = v @ drop (length v) r"
    by (metis append_take_drop_id startswith_take)
  with v show "\<exists>v vs r'. vals = v # vs \<and> r = v @ r' \<and> list_all (atom_ok a) v \<and> m \<le> length v \<and>
       fits its r' vs"
    by blast
next
  assume "\<exists>v vs r'. vals = v # vs \<and> r = v @ r' \<and> list_all (atom_ok a) v \<and> m \<le> length v \<and>
       fits its r' vs"
  then show "fits (Group n a m # its) r vals"
    by (auto simp: startswith_append)
qed

lemma slashes_append [simp]: "slashes (x @ y) = slashes x + slashes y"
  by (simp add: slashes_def)

lemma slashes_Cons [simp]: "slashes (c # x) = (if c = CHR ''/'' then 1 else 0) + slashes x"
  by (simp add: slashes_def)

lemma slashes_Nil [simp]: "slashes [] = 0"
  by (simp add: slashes_def)

lemma slashes_0: "slashes x = 0 \<longleftrightarrow> CHR ''/'' \<notin> set x"
  by (induction x) auto

lemma digit_not_slash: "list_all is_digit v \<Longrightarrow> CHR ''/'' \<notin> set v"
  by (auto simp: list_all_iff is_digit_def)

lemma split_at_first:
  "c \<notin> set x \<Longrightarrow> c \<notin> set x' \<Longrightarrow> x @ c # y = x' @ c # y' \<Longrightarrow> x = x' \<and> y = y'"
proof (induction x arbitrary: x')
  case Nil
  then show ?case by (cases x') auto
next
  case (Cons a x)
  then show ?case by (cases x') auto
qed

lemma std_no_match:
  assumes "CHR ''/'' \<notin> set s0" "CHR ''/'' \<notin> set p0" "CHR ''/'' \<notin> set u0"
    and "\<not> list_all is_digit p0"
    and "i \<le> length (''/api/'' @ s0 @ ''/'' @ p0 @ ''/'' @ u0)"
  shows "\<not> fits (map item_of [Chr CHR ''/'', Chr CHR ''a'', Chr CHR ''p'', Chr CHR ''i'',
                 Chr CHR ''/'', Server, Chr CHR ''/'', Port, Chr CHR ''/'', Uuid])
             (drop i (''/api/'' @ s0 @ ''/'' @ p0 @ ''/'' @ u0)) vals"
proof
  let ?path = "''/api/'' @ s0 @ ''/'' @ p0 @ ''/'' @ u0"
  assume "fits (map item_of [Chr CHR ''/'', Chr CHR ''a'', Chr CHR ''p'', Chr CHR ''i'',
                 Chr CHR ''/'', Server, Chr CHR ''/'', Port, Chr CHR ''/'', Uuid])
             (drop i ?path) vals"
  moreover have "atom_ok ADigit = is_digit"
    by (rule ext) simp
  ultimately obtain sv pv r3 where
    r: "drop i ?path = ''/api/'' @ sv @ ''/'' @ pv @ ''/'' @ r3"
    and pv: "list_all is_digit pv"
    by (auto simp: fits_One fits_Group simp del: fits.simps)
  define pre where "pre = take i ?path"
  have path: "?path = pre @ ''/api/'' @ sv @ ''/'' @ pv @ ''/'' @ r3"
    unfolding pre_def r [symmetric] by simp
  have "slashes ?path = 4"
    using assms(1-3) by (simp add: slashes_0 [symmetric])
  moreover have "slashes ?path = slashes pre + slashes sv + slashes pv + slashes r3 + 4"
    by (subst path) simp
  ultimately have z: "slashes pre = 0" "slashes sv = 0" "slashes r3 = 0"
    by simp_all
  have "pre = []"
  proof (cases pre)
    case Nil
    then show ?thesis .
  next
    case (Cons c pre')
    with path have "c = CHR ''/''" by simp
    with Cons z(1) show ?thesis by simp
  qed
  with path have e1: "s0 @ CHR ''/'' # (p0 @ CHR ''/'' # u0) = sv @ CHR ''/'' # (pv @ CHR ''/'' # r3)"
    by simp
  have sv: "CHR ''/'' \<notin> set sv"
    using z(2) by (simp add: slashes_0)
  from split_at_first [OF assms(1) sv e1]
  have e2: "p0 @ CHR ''/'' # u0 = pv @ CHR ''/'' # r3"
    by simp
  from split_at_first [OF assms(2) digit_not_slash [OF pv] e2]
  have "p0 = pv"
    by simp
  with pv assms(4) show False by simp
qed

text \<open>
  C4, as the code has it: the value captured for \<open>$port\<close> is a non-empty sequence of
  decimal digits, and a path \<open>/api/s/p/u\<close> whose three segments hold no \<open>/\<close> and whose
  segment \<open>p\<close>, in the place of \<open>$port\<close> in the template \<open>/api/$server/$port/$uuid\<close>,
  holds a character that is not a digit is not matched: \<open>get_juju_api_url\<close> returns the
  default.
\<close>

theorem port_takes_digits_only:
  "(tokens_ok ts \<and> re_search (make_pattern (template_source ts)) p = Inr (Some g) \<and>
      map_of g ''port'' = Some v \<longrightarrow> v \<noteq> [] \<and> list_all is_digit v) \<and>
   (CHR ''/'' \<notin> set s0 \<and> CHR ''/'' \<notin> set p0 \<and> CHR ''/'' \<notin> set u0 \<and>
      \<not> list_all is_digit p0 \<longrightarrow>
      re_search (make_pattern ''/api/$server/$port/$uuid'')
        (''/api/'' @ s0 @ ''/'' @ p0 @ ''/'' @ u0) = Inr None \<and>
      get_juju_api_url (''/api/'' @ s0 @ ''/'' @ p0 @ ''/'' @ u0) ''/api/$server/$port/$uuid''
        target_template dflt = Inr dflt)"
proof (intro conjI impI; (elim conjE)?)
  assume "tokens_ok ts" "re_search (make_pattern (template_source ts)) p = Inr (Some g)"
    "map_of g ''port'' = Some v"
  then have "v \<noteq> [] \<and> list_all is_digit v"
    by (rule port_capture_digits)
  then show "v \<noteq> []" "list_all is_digit v"
    by simp_all
next
  let ?ts = "[Chr CHR ''/'', Chr CHR ''a'', Chr CHR ''p'', Chr CHR ''i'',
              Chr CHR ''/'', Server, Chr CHR ''/'', Port, Chr CHR ''/'', Uuid]"
  let ?path = "''/api/'' @ s0 @ ''/'' @ p0 @ ''/'' @ u0"
  assume a: "CHR ''/'' \<notin> set s0" "CHR ''/'' \<notin> set p0" "CHR ''/'' \<notin> set u0"
    "\<not> list_all is_digit p0"
  have c: "sre_compile (make_pattern ''/api/$server/$port/$uuid'') = Inr (map item_of ?ts)"
    using sre_compile_tokens [OF std_tokens(1)] unfolding std_tokens(2) .
  have "\<forall>i \<le> length ?path. match_items (map item_of ?ts) (drop i ?path) [] = None"
  proof (intro allI impI)
    fix i assume i: "i \<le> length ?path"
    show "match_items (map item_of ?ts) (drop i ?path) [] = None"
    proof (cases "match_items (map item_of ?ts) (drop i ?path) []")
      case None
      then show ?thesis .
    next
      case (Some g')
      from match_items_sound [OF this] obtain vals where
        "fits (map item_of ?ts) (drop i ?path) vals" by blast
      with std_no_match [OF a i, of vals] show ?thesis by simp
    qed
  qed
  then have "search_from (map item_of ?ts) ?path = None"
    by (simp only: search_from_None)
  with c show r: "re_search (make_pattern ''/api/$server/$port/$uuid'') ?path = Inr None"
    by (simp add: re_search_def)
  then show "get_juju_api_url ?path ''/api/$server/$port/$uuid'' target_template dflt = Inr dflt"
    by (simp add: get_juju_api_url_def)
qed

theorem port_takes_digits_only_witness:
  "tokens_ok [Chr CHR ''/'', Chr CHR ''a'', Chr CHR ''p'', Chr CHR ''i'',
              Chr CHR ''/'', Server, Chr CHR ''/'', Port, Chr CHR ''/'', Uuid] \<and>
   re_search (make_pattern ''/api/$server/$port/$uuid'') ''/api/10.0.0.5/17070/abcd-1234'' =
     Inr (Some [(''server'', ''10.0.0.5''), (''port'', ''17070''), (''uuid'', ''abcd-1234'')]) \<and>
   list_all is_digit ''17070'' \<and>
   CHR ''/'' \<notin> set ''host'' \<and> CHR ''/'' \<notin> set ''notaport'' \<and> CHR ''/'' \<notin> set ''uuid1'' \<and>
   \<not> list_all is_digit ''notaport'' \<and>
   get_juju_api_url ''/api/host/notaport/uuid1'' ''/api/$server/$port/$uuid''
     ''wss://{server}:{port}/environment/{uuid}/api'' ''D'' = Inr ''D''"
proof -
  let ?ts = "[Chr CHR ''/'', Chr CHR ''a'', Chr CHR ''p'', Chr CHR ''i'',
              Chr CHR ''/'', Server, Chr CHR ''/'', Port, Chr CHR ''/'', Uuid]"
  let ?g = "[(''server'', ''10.0.0.5''), (''port'', ''17070''), (''uuid'', ''abcd-1234'')]"
  have h: "re_search (make_pattern ''/api/$server/$port/$uuid'') ''/api/10.0.0.5/17070/abcd-1234'' =
     Inr (Some ?g)"
    by code_simp
  have m: "map_of ?g ''port'' = Some ''17070''"
    by simp
  have n: "CHR ''/'' \<notin> set ''host''" "CHR ''/'' \<notin> set ''notaport''"
    "CHR ''/'' \<notin> set ''uuid1''" "\<not> list_all is_digit ''notaport''"
    by (simp_all add: is_digit_def)
  note t = port_takes_digits_only [of ?ts "''/api/10.0.0.5/17070/abcd-1234''" ?g "''17070''"
      "''host''" "''notaport''" "''uuid1''" "''wss://{server}:{port}/environment/{uuid}/api''"
      "''D''", unfolded std_tokens(2)]
  from t std_tokens(1) h m have d: "list_all is_digit ''17070''"
    by blast
  from t n have "get_juju_api_url (''/api/'' @ ''host'' @ ''/'' @ ''notaport'' @ ''/'' @ ''uuid1'')
     ''/api/$server/$port/$uuid'' ''wss://{server}:{port}/environment/{uuid}/api'' ''D'' = Inr ''D''"
    by blast
  then have u: "get_juju_api_url ''/api/host/notaport/uuid1'' ''/api/$server/$port/$uuid''
     ''wss://{server}:{port}/environment/{uuid}/api'' ''D'' = Inr ''D''"
    by simp
  show ?thesis
    by (intro conjI std_tokens(1) h d n u)
qed

text \<open>
  C4 as stated fails: a segment with a character that is not a digit in the place of
  \<open>$port\<close> does not always prevent the match. The search is not anchored at the end, so
  with the template \<open>/api/$server/$port\<close> the digits that start the segment \<open>80a\<close> are
  taken as the port; and the greedy server capture goes across \<open>/\<close>, so with the
  template \<open>/api/$server/$port/$uuid\<close> the path \<open>/api/host/notaport/17070/x\<close> matches
  with the server \<open>host/notaport\<close>.
\<close>

theorem port_segment_counterexample:
  "\<not> list_all is_digit ''80a'' \<and>
   get_juju_api_url ''/api/host/80a'' ''/api/$server/$port'' ''wss://{server}:{port}'' ''D'' =
     Inr ''wss://host:80'' \<and>
   \<not> list_all is_digit ''notaport'' \<and>
   get_juju_api_url ''/api/host/notaport/17070/x'' ''/api/$server/$port/$uuid''
     ''wss://{server}:{port}/environment/{uuid}/api'' ''D'' =
     Inr ''wss://host/notaport:17070/environment/x/api''"
  by code_simp

subsection \<open>A \<open>$\<close> that starts no placeholder\<close>

lemma match_items_after_eol:
  "c \<noteq> newline \<Longrightarrow> match_items (its1 @ Eol # One (AChar c) # its2) s caps = None"
proof (induction its1 arbitrary: s caps)
  case Nil
  then show ?case by (cases s) auto
next
  case (Cons it its1)
  show ?case
  proof (cases it)
    case (One a)
    with Cons show ?thesis by (cases s) auto
  next
    case Eol
    with Cons show ?thesis by simp
  next
    case (Group n a m)
    with Cons show ?thesis by (simp add: first_success_None)
  qed
qed

text \<open>
  C7, as the code has it: in a source template made of characters that are not special
  in a pattern, of \<open>$\<close> signs that start no placeholder and of the placeholders
  \<open>$server\<close>, \<open>$port\<close>, \<open>$uuid\<close>, each at most once, a \<open>$\<close> that starts no placeholder is
  not replaced and stays in the pattern, where it is the anchor for the end of the
  subject and not a literal. When such a \<open>$\<close> is followed by an ordinary character other
  than a newline, the pattern matches no path: the function returns the default for
  every path.
\<close>

theorem dollar_token_is_anchor:
  assumes "tokens_ok (ts1 @ Dollar # Chr c # ts2)" and "c \<noteq> newline"
  shows "sre_compile (make_pattern (template_source (ts1 @ Dollar # Chr c # ts2))) =
           Inr (map item_of ts1 @ Eol # One (AChar c) # map item_of ts2) \<and>
         re_search (make_pattern (template_source (ts1 @ Dollar # Chr c # ts2))) p = Inr None \<and>
         get_juju_api_url p (template_source (ts1 @ Dollar # Chr c # ts2)) target_template dflt =
           Inr dflt"
proof -
  let ?its = "map item_of ts1 @ Eol # One (AChar c) # map item_of ts2"
  have c: "sre_compile (make_pattern (template_source (ts1 @ Dollar # Chr c # ts2))) = Inr ?its"
    using sre_compile_tokens [OF assms(1)] by simp
  have "\<forall>i \<le> length p. match_items ?its (drop i p) [] = None"
    using assms(2) by (simp add: match_items_after_eol)
  then have "search_from ?its p = None"
    by (simp only: search_from_None)
  with c have r: "re_search (make_pattern (template_source (ts1 @ Dollar # Chr c # ts2))) p = Inr None"
    by (simp add: re_search_def)
  then have "get_juju_api_url p (template_source (ts1 @ Dollar # Chr c # ts2)) target_template dflt =
           Inr dflt"
    by (simp add: get_juju_api_url_def)
  with c r show ?thesis by (intro conjI)
qed

theorem dollar_token_is_anchor_witness:
  "tokens_ok ([Chr CHR ''/'', Chr CHR ''a'', Chr CHR ''p'', Chr CHR ''i'', Chr CHR ''/''] @
              Dollar # Chr CHR ''f'' # [Chr CHR ''o'', Chr CHR ''o'']) \<and>
   CHR ''f'' \<noteq> newline \<and>
   template_source ([Chr CHR ''/'', Chr CHR ''a'', Chr CHR ''p'', Chr CHR ''i'', Chr CHR ''/''] @
              Dollar # Chr CHR ''f'' # [Chr CHR ''o'', Chr CHR ''o'']) = ''/api/$foo'' \<and>
   sre_compile (make_pattern ''/api/$foo'') =
     Inr [One (AChar CHR ''/''), One (AChar CHR ''a''), One (AChar CHR ''p''),
          One (AChar CHR ''i''), One (AChar CHR ''/''), Eol, One (AChar CHR ''f''),
          One (AChar CHR ''o''), One (AChar CHR ''o'')] \<and>
   get_juju_api_url ''/api/bar'' ''/api/$foo'' ''wss://{server}'' ''D'' = Inr ''D''"
proof -
  let ?ts1 = "[Chr CHR ''/'', Chr CHR ''a'', Chr CHR ''p'', Chr CHR ''i'', Chr CHR ''/'']"
  let ?ts2 = "[Chr CHR ''o'', Chr CHR ''o'']"
  have ok: "tokens_ok (?ts1 @ Dollar # Chr CHR ''f'' # ?ts2)"
    by (simp add: special_def backslash_def template_source_def)
  have nl: "CHR ''f'' \<noteq> newline"
    by (simp add: newline_def)
  have src: "template_source (?ts1 @ Dollar # Chr CHR ''f'' # ?ts2) = ''/api/$foo''"
    by (simp add: template_source_def)
  from dollar_token_is_anchor [OF ok nl, of "''/api/bar''" "''wss://{server}''" "''D''"]
  show ?thesis
    using ok nl src unfolding src by simp
qed

text \<open>
  C7 as stated fails: the token is not matched as a literal. The path \<open>/api/$foo\<close>
  holds the characters of the token \<open>$foo\<close> of the template \<open>/api/$foo\<close>, which the
  replacements leave as it is, and the pattern does not match it.
\<close>

theorem dollar_token_counterexample:
  "make_pattern ''/api/$foo'' = ''/api/$foo'' \<and>
   occurs ''$foo'' ''/api/$foo'' \<and>
   re_search (make_pattern ''/api/$foo'') ''/api/$foo'' = Inr None \<and>
   get_juju_api_url ''/api/$foo'' ''/api/$foo'' ''matched'' ''D'' = Inr ''D''"
  by code_simp

subsection \<open>No match: the default\<close>

lemma no_fits_no_match:
  assumes "\<forall>i \<le> length p. \<forall>vals. \<not> fits its (drop i p) vals"
  shows "search_from its p = None"
proof -
  have "\<forall>i \<le> length p. match_items its (drop i p) [] = None"
  proof (intro allI impI)
    fix i assume i: "i \<le> length p"
    show "match_items its (drop i p) [] = None"
    proof (cases "match_items its (drop i p) []")
      case None
      then show ?thesis .
    next
      case (Some g)
      from match_items_sound [OF this] obtain vals where "fits its (drop i p) vals"
        by blast
      moreover from assms i have "\<not> fits its (drop i p) vals"
        by simp
      ultimately show ?thesis by simp
    qed
  qed
  then show ?thesis
    by (simp only: search_from_None)
qed

lemma no_match_no_fits:
  assumes "search_from its p = None" and "i \<le> length p"
  shows "\<not> fits its (drop i p) vals"
proof
  assume "fits its (drop i p) vals"
  then have "match_items its (drop i p) [] \<noteq> None"
    by (rule match_items_complete)
  moreover from assms(1) have "\<forall>i \<le> length p. match_items its (drop i p) [] = None"
    by (simp only: search_from_None)
  with assms(2) have "match_items its (drop i p) [] = None"
    by simp
  ultimately show False by simp
qed

text \<open>
  C2, as the code has it: for a source template made of characters that are not special
  in a pattern, of \<open>$\<close> signs that start no placeholder and of the placeholders
  \<open>$server\<close>, \<open>$port\<close>, \<open>$uuid\<close>, each at most once, and for a path that the derived
  pattern matches at no offset, \<open>re.search\<close> returns \<open>None\<close> and \<open>get_juju_api_url\<close>
  returns the given default itself: nothing is raised.
\<close>

theorem no_match_returns_default:
  assumes "tokens_ok ts"
    and "\<forall>i \<le> length p. \<forall>vals. \<not> fits (map item_of ts) (drop i p) vals"
  shows "re_search (make_pattern (template_source ts)) p = Inr None \<and>
         get_juju_api_url p (template_source ts) target_template dflt = Inr dflt"
proof -
  have "sre_compile (make_pattern (template_source ts)) = Inr (map item_of ts)"
    using assms(1) by (rule sre_compile_tokens)
  moreover have "search_from (map item_of ts) p = None"
    using assms(2) by (rule no_fits_no_match)
  ultimately have r: "re_search (make_pattern (template_source ts)) p = Inr None"
    by (simp add: re_search_def)
  then have "get_juju_api_url p (template_source ts) target_template dflt = Inr dflt"
    by (simp add: get_juju_api_url_def)
  with r show ?thesis ..
qed

theorem no_match_returns_default_witness:
  "tokens_ok [Chr CHR ''/'', Chr CHR ''a'', Chr CHR ''p'', Chr CHR ''i'',
              Chr CHR ''/'', Server, Chr CHR ''/'', Port, Chr CHR ''/'', Uuid] \<and>
   search_from (map item_of [Chr CHR ''/'', Chr CHR ''a'', Chr CHR ''p'', Chr CHR ''i'',
              Chr CHR ''/'', Server, Chr CHR ''/'', Port, Chr CHR ''/'', Uuid])
     ''/legacy/path'' = None \<and>
   get_juju_api_url ''/legacy/path'' ''/api/$server/$port/$uuid''
     ''wss://{server}:{port}/environment/{uuid}/api'' ''wss://fallback:17070/api''
   = Inr ''wss://fallback:17070/api''"
proof -
  let ?ts = "[Chr CHR ''/'', Chr CHR ''a'', Chr CHR ''p'', Chr CHR ''i'',
              Chr CHR ''/'', Server, Chr CHR ''/'', Port, Chr CHR ''/'', Uuid]"
  have s: "search_from (map item_of ?ts) ''/legacy/path'' = None"
    by code_simp
  have n: "\<forall>i \<le> length ''/legacy/path''. \<forall>vals.
      \<not> fits (map item_of ?ts) (drop i ''/legacy/path'') vals"
    using no_match_no_fits [OF s] by blast
  from no_match_returns_default [OF std_tokens(1) n,
      of "''wss://{server}:{port}/environment/{uuid}/api''" "''wss://fallback:17070/api''"]
  have "get_juju_api_url ''/legacy/path'' ''/api/$server/$port/$uuid''
     ''wss://{server}:{port}/environment/{uuid}/api'' ''wss://fallback:17070/api''
   = Inr ''wss://fallback:17070/api''"
    unfolding std_tokens(2) by simp
  with std_tokens(1) s show ?thesis
    by (intro conjI)
qed

text \<open>
  C2 as stated fails: the default is not the only outcome for a path that does not
  match. A source template that repeats a placeholder gives a pattern with two groups
  of one name, which \<open>re\<close> refuses: the call raises \<open>re.error\<close>.
\<close>

theorem repeated_placeholder_counterexample:
  "make_pattern ''/api/$server/$port/$server'' =
     ''/api/(?P<server>.*)/(?P<port>'' @ [backslash] @ ''d+)/(?P<server>.*)'' \<and>
   re_search (make_pattern ''/api/$server/$port/$server'') ''/legacy/path'' = Inl ReError \<and>
   get_juju_api_url ''/legacy/path'' ''/api/$server/$port/$server''
     ''wss://{server}:{port}'' ''wss://fallback:17070/api'' = Inl ReError"
  by code_simp

end
